theory Spec2Isabelle
  imports Main "HOL-Library.Word" "HOL-Library.Multiset"
begin

unbundle bit_operations_syntax

section \<open>The parsed request (asgn2/seb\_http.h, asgn2/seb\_http.c)\<close>

text \<open>
  C strings are modelled as HOL strings without an embedded NUL, \<^verbatim>\<open>ssize_t\<close> and
  \<^verbatim>\<open>off_t\<close> as 64-bit words read with \<^const>\<open>sint\<close> (LP64; signed overflow wraps),
  \<^verbatim>\<open>int\<close> status codes as \<^typ>\<open>int\<close>.  The regex tokenizer \<^verbatim>\<open>req_parse\<close> is
  not modelled: the handlers take its result, a \<^verbatim>\<open>Request\<close> whose fields are filled in,
  or nothing when it returns \<^verbatim>\<open>-1\<close>.  The field names \<^verbatim>\<open>method\<close> and
  \<^verbatim>\<open>value\<close> carry a prime because Isabelle reserves the plain words.
\<close>

type_synonym ssize_t = "64 word"

datatype Method = GET | PUT | UNSUPPORTED

record Header =
  key :: string
  value' :: string

record Request =
  sockfd :: int
  method' :: Method
  uri :: string
  http_ver_major :: char
  http_ver_minor :: char
  headers :: "Header list"
  body :: string

record Response =
  responded :: bool
  status :: int

definition RESPONSE_UNSENT :: "int \<Rightarrow> Response" where
  "RESPONSE_UNSENT code = \<lparr>responded = False, status = code\<rparr>"

definition RESPONSE_SENT :: "int \<Rightarrow> Response" where
  "RESPONSE_SENT code = \<lparr>responded = True, status = code\<rparr>"

text \<open>\<^verbatim>\<open>tolower\<close> in the C locale, and \<^verbatim>\<open>strcasecmp(a, b) == 0\<close>.\<close>

definition tolower :: "char \<Rightarrow> char" where
  "tolower c = (if (65::nat) \<le> of_char c \<and> of_char c \<le> (90::nat)
                then char_of (of_char c + (32::nat)) else c)"

definition strcasecmp :: "string \<Rightarrow> string \<Rightarrow> bool" where
  "strcasecmp a b = (map tolower a = map tolower b)"

fun header_value :: "Header list \<Rightarrow> string \<Rightarrow> string option" where
  "header_value [] k = None"
| "header_value (h # hs) k = (if strcasecmp (key h) k then Some (value' h) else header_value hs k)"

definition req_get_header_value :: "Request \<Rightarrow> string \<Rightarrow> string option" where
  "req_get_header_value req k = header_value (headers req) k"

text \<open>
  \<^verbatim>\<open>_str_to_long\<close>: the loop over the characters, \<^verbatim>\<open>res\<close> multiplied by ten before the
  switch; \<^verbatim>\<open>'9'\<close> falls through to \<^verbatim>\<open>'0'\<close>, any other character returns \<^verbatim>\<open>-1\<close>.
\<close>

fun str_to_long_loop :: "ssize_t \<Rightarrow> string \<Rightarrow> ssize_t" where
  "str_to_long_loop res [] = res"
| "str_to_long_loop res (c # cs) =
     (if c = CHR ''1'' then str_to_long_loop (res * 10 + 1) cs
      else if c = CHR ''2'' then str_to_long_loop (res * 10 + 2) cs
      else if c = CHR ''3'' then str_to_long_loop (res * 10 + 3) cs
      else if c = CHR ''4'' then str_to_long_loop (res * 10 + 4) cs
      else if c = CHR ''5'' then str_to_long_loop (res * 10 + 5) cs
      else if c = CHR ''6'' then str_to_long_loop (res * 10 + 6) cs
      else if c = CHR ''7'' then str_to_long_loop (res * 10 + 7) cs
      else if c = CHR ''8'' then str_to_long_loop (res * 10 + 8) cs
      else if c = CHR ''9'' then str_to_long_loop (res * 10 + 9) cs
      else if c = CHR ''0'' then str_to_long_loop (res * 10) cs
      else - 1)"

definition str_to_long :: "string \<Rightarrow> ssize_t" where
  "str_to_long str = str_to_long_loop 0 str"

definition req_get_content_length :: "Request \<Rightarrow> ssize_t" where
  "req_get_content_length req =
     (case req_get_header_value req ''Content-Length'' of
        None \<Rightarrow> - 1
      | Some content_length_str \<Rightarrow>
          (let content_length = str_to_long content_length_str
           in if sint content_length < 0 then - 2 else content_length))"

text \<open>Decimal output, as \<^verbatim>\<open>%lu\<close> and \<^verbatim>\<open>%d\<close> of \<^verbatim>\<open>printf\<close> write it.\<close>

definition digit_char :: "nat \<Rightarrow> char" where
  "digit_char d = ''0123456789'' ! d"

fun dec :: "nat \<Rightarrow> string" where
  "dec n = (if n < 10 then [digit_char n] else dec (n div 10) @ [digit_char (n mod 10)])"

declare dec.simps [simp del]

definition printf_d :: "int \<Rightarrow> string" where
  "printf_d i = (if i < 0 then CHR ''-'' # dec (nat (- i)) else dec (nat i))"

definition CRLF :: string where
  "CRLF = [CHR 0x0D, CHR 0x0A]"

section \<open>The operating system, as the handlers see it\<close>

text \<open>
  The handlers' behaviour depends on what the system calls return; the results are
  inputs (a record of oracles), and every call made is recorded, in order, with its
  arguments.  \<^verbatim>\<open>errno\<close> values the source does not name are \<open>EOTHER\<close>.
\<close>

datatype errno = EACCES | ENAMETOOLONG | EPERM | EROFS | ENOENT | EISDIR | EBADF | EFAULT
  | EOTHER nat

datatype oflag = O_RDONLY | O_WRONLY | O_TRUNC

record stat =
  st_mode :: "32 word"
  st_size :: "64 word"

definition S_ISDIR :: "32 word \<Rightarrow> bool" where
  "S_ISDIR m = (m AND 0xF000 = 0x4000)"

record os =
  sys_open :: "string \<Rightarrow> oflag list \<Rightarrow> errno + int"
  sys_creat :: "string \<Rightarrow> nat \<Rightarrow> errno + int"
  sys_fstat :: "int \<Rightarrow> errno + stat"
  sys_write_n_bytes :: "int \<Rightarrow> string \<Rightarrow> ssize_t"

datatype syscall =
    Open string "oflag list"
  | Creat string nat
  | Fstat int
  | Close int
  | Write_n_bytes int string
  | Pass_n_bytes int int "64 word"

section \<open>The request handlers (asgn4/httpserver.c)\<close>

definition handle_get :: "os \<Rightarrow> Request \<Rightarrow> Response \<times> syscall list" where
  "handle_get os req =
     (let URI = uri req in
      case sys_open os URI [O_RDONLY] of
        Inl e \<Rightarrow>
          (if e = EACCES \<or> e = ENAMETOOLONG \<or> e = EPERM \<or> e = EROFS
             then (RESPONSE_UNSENT 403, [Open URI [O_RDONLY]])
           else if e = ENOENT then (RESPONSE_UNSENT 404, [Open URI [O_RDONLY]])
           else (RESPONSE_UNSENT 500, [Open URI [O_RDONLY]]))
      | Inr fd \<Rightarrow>
          (case sys_fstat os fd of
             Inl e \<Rightarrow>
               (if e = EACCES \<or> e = EBADF \<or> e = EFAULT
                  then (RESPONSE_UNSENT 403, [Open URI [O_RDONLY], Fstat fd, Close fd])
                else if e = ENOENT
                  then (RESPONSE_UNSENT 404, [Open URI [O_RDONLY], Fstat fd, Close fd])
                else (RESPONSE_UNSENT 500, [Open URI [O_RDONLY], Fstat fd, Close fd]))
           | Inr st \<Rightarrow>
               if S_ISDIR (st_mode st)
                 then (RESPONSE_UNSENT 403, [Open URI [O_RDONLY], Fstat fd, Close fd])
               else
                 (let file_size = st_size st; sock = sockfd req
                  in (RESPONSE_SENT 200,
                      [Open URI [O_RDONLY], Fstat fd,
                       Write_n_bytes sock (''HTTP/1.1 200 OK'' @ CRLF),
                       Write_n_bytes sock (''Content-Length: '' @ dec (unat file_size) @ CRLF),
                       Write_n_bytes sock CRLF,
                       Pass_n_bytes fd sock file_size,
                       Close fd]))))"

text \<open>
  The mode \<^verbatim>\<open>0666\<close> of \<^verbatim>\<open>creat\<close> is octal: \<open>0x1B6\<close>.
  \<^verbatim>\<open>handle_put\<close> after \<^verbatim>\<open>fd\<close> and \<^verbatim>\<open>res\<close> are set: the buffered body prefix is
  written, the rest passed from the socket; every path returns \<^verbatim>\<open>res\<close>.
\<close>

definition put_body :: "os \<Rightarrow> Request \<Rightarrow> ssize_t \<Rightarrow> int \<Rightarrow> int \<Rightarrow> Response \<times> syscall list" where
  "put_body os req content_length fd res =
     (if content_length = 0 then (RESPONSE_UNSENT res, [Close fd])
      else
        (let total_wb = (if body req \<noteq> [] then 0 + sys_write_n_bytes os fd (body req) else 0);
             written = (if body req \<noteq> [] then [Write_n_bytes fd (body req)] else [])
         in if total_wb = content_length then (RESPONSE_UNSENT res, written @ [Close fd])
            else (RESPONSE_UNSENT res,
                  written @ [Pass_n_bytes (sockfd req) fd (content_length - total_wb), Close fd])))"

definition handle_put :: "os \<Rightarrow> Request \<Rightarrow> Response \<times> syscall list" where
  "handle_put os req =
     (let content_length = req_get_content_length req in
      if sint content_length < 0 then (RESPONSE_UNSENT 400, [])
      else
        (let URI = uri req in
         case sys_open os URI [O_WRONLY, O_TRUNC] of
           Inl e \<Rightarrow>
             (if e = EISDIR \<or> e = EACCES \<or> e = ENAMETOOLONG \<or> e = EPERM \<or> e = EROFS
                then (RESPONSE_UNSENT 403, [Open URI [O_WRONLY, O_TRUNC]])
              else if e = ENOENT then
                (let fd = (case sys_creat os URI 0x1B6 of Inl e' \<Rightarrow> - 1 | Inr fd' \<Rightarrow> fd');
                     r = put_body os req content_length fd 201
                 in (fst r, [Open URI [O_WRONLY, O_TRUNC], Creat URI 0x1B6] @ snd r))
              else (RESPONSE_UNSENT 500, [Open URI [O_WRONLY, O_TRUNC]]))
         | Inr fd \<Rightarrow>
             (let r = put_body os req content_length fd 200
              in (fst r, [Open URI [O_WRONLY, O_TRUNC]] @ snd r))))"

text \<open>\<^verbatim>\<open>respond\<close>: the canned reply, as the sequence of writes to the connection.\<close>

definition status_line_body :: "int \<Rightarrow> string \<times> string" where
  "status_line_body st =
     (if st = 200 then (''200 OK'', ''OK'' @ [CHR 0x0A])
      else if st = 201 then (''201 Created'', ''Created'' @ [CHR 0x0A])
      else if st = 400 then (''400 Bad Request'', ''Bad Request'' @ [CHR 0x0A])
      else if st = 403 then (''403 Forbidden'', ''Forbidden'' @ [CHR 0x0A])
      else if st = 404 then (''404 Not Found'', ''Not Found'' @ [CHR 0x0A])
      else if st = 501 then (''501 Not Implemented'', ''Not Implemented'' @ [CHR 0x0A])
      else if st = 505 then (''505 Version Not Supported'', ''Version Not Supported'' @ [CHR 0x0A])
      else (''500 Internal Server Error'', ''Internal Server Error'' @ [CHR 0x0A]))"

definition respond :: "int \<Rightarrow> int \<Rightarrow> syscall list" where
  "respond conn st =
     (let status_line = fst (status_line_body st); body = snd (status_line_body st)
      in [Write_n_bytes conn ''HTTP/1.1 '',
          Write_n_bytes conn status_line,
          Write_n_bytes conn CRLF,
          Write_n_bytes conn ''Content-Length: '',
          Write_n_bytes conn (dec (length body) @ CRLF),
          Write_n_bytes conn CRLF,
          Write_n_bytes conn body])"


section \<open>The per-URI lock registry (asgn4/httpserver.c)\<close>

text \<open>
  \<^verbatim>\<open>file_locks\<close> is an array of \<^verbatim>\<open>thread_count\<close> entries; it is the list, and
  \<^verbatim>\<open>thread_count\<close> its length (as \<^verbatim>\<open>main\<close> sets both).  A \<^verbatim>\<open>NULL\<close> file name
  is \<open>None\<close>; a pointer to an entry is its index, and the \<^verbatim>\<open>NULL\<close> result of
  \<^verbatim>\<open>find_file_lock\<close> is \<open>None\<close>.  \<^verbatim>\<open>users\<close> is a C \<^verbatim>\<open>int\<close>; it is bounded by the
  number of callers, so it is modelled without wrap-around.
\<close>

record 'l file_lock =
  lock :: 'l
  filename :: "string option"
  users :: int

function find_file_lock_from :: "nat \<Rightarrow> 'l file_lock list \<Rightarrow> string \<Rightarrow> (nat \<times> 'l file_lock list) option" where
  "find_file_lock_from i file_locks URI =
     (if i < length file_locks then
        (case filename (file_locks ! i) of
           None \<Rightarrow> Some (i, file_locks[i := (file_locks ! i)\<lparr>filename := Some URI, users := 1\<rparr>])
         | Some name \<Rightarrow>
             if name = URI
             then Some (i, file_locks[i := (file_locks ! i)\<lparr>users := users (file_locks ! i) + 1\<rparr>])
             else find_file_lock_from (i + 1) file_locks URI)
      else None)"
  by pat_completeness auto
termination
  by (relation "measure (\<lambda>(i, file_locks, URI). length file_locks - i)") auto

declare find_file_lock_from.simps [simp del]

definition find_file_lock :: "'l file_lock list \<Rightarrow> string \<Rightarrow> (nat \<times> 'l file_lock list) option" where
  "find_file_lock file_locks URI = find_file_lock_from 0 file_locks URI"

definition release_file_lock :: "'l file_lock list \<Rightarrow> nat \<Rightarrow> 'l file_lock list" where
  "release_file_lock file_locks i =
     (let e = file_locks ! i; u = users e - 1
      in file_locks[i := (if u = 0 then e\<lparr>users := u, filename := None\<rparr> else e\<lparr>users := u\<rparr>)])"

text \<open>The registry as \<^verbatim>\<open>main\<close> initialises it: one entry per lock, no name, no user.\<close>

definition init_file_locks :: "'l list \<Rightarrow> 'l file_lock list" where
  "init_file_locks ls = map (\<lambda>l. \<lparr>lock = l, filename = None, users = 0\<rparr>) ls"

text \<open>
  The workers' use of the registry, as \<^verbatim>\<open>handle_connection\<close> makes it: a worker that
  holds no entry acquires one for a URI, a worker that holds an entry releases it.
  \<open>held ! w\<close> is the entry worker \<open>w\<close> holds.  A step is \<open>None\<close> when the event is
  not one a worker can make in that state, or when \<^verbatim>\<open>find_file_lock\<close> returns
  \<^verbatim>\<open>NULL\<close> (the worker then dereferences it).
\<close>

datatype reg_event = Acquire nat string | Release nat

fun reg_step :: "'l file_lock list \<times> nat option list \<Rightarrow> reg_event \<Rightarrow> ('l file_lock list \<times> nat option list) option" where
  "reg_step (file_locks, held) (Acquire w URI) =
     (if w < length held \<and> held ! w = None then
        (case find_file_lock file_locks URI of
           None \<Rightarrow> None
         | Some (i, file_locks') \<Rightarrow> Some (file_locks', held[w := Some i]))
      else None)"
| "reg_step (file_locks, held) (Release w) =
     (if w < length held then
        (case held ! w of
           None \<Rightarrow> None
         | Some i \<Rightarrow> Some (release_file_lock file_locks i, held[w := None]))
      else None)"

fun reg_run :: "'l file_lock list \<times> nat option list \<Rightarrow> reg_event list \<Rightarrow> ('l file_lock list \<times> nat option list) option" where
  "reg_run s [] = Some s"
| "reg_run s (e # es) = (case reg_step s e of None \<Rightarrow> None | Some s' \<Rightarrow> reg_run s' es)"

text \<open>Auxiliary notions for the proofs about the scan.\<close>

definition slot_free_or_match :: "'l file_lock \<Rightarrow> string \<Rightarrow> bool" where
  "slot_free_or_match e URI = (filename e = None \<or> filename e = Some URI)"

definition slot_take :: "'l file_lock \<Rightarrow> string \<Rightarrow> 'l file_lock" where
  "slot_take e URI = (case filename e of None \<Rightarrow> e\<lparr>filename := Some URI, users := 1\<rparr>
                       | Some name \<Rightarrow> e\<lparr>users := users e + 1\<rparr>)"

definition reg_inv :: "nat \<Rightarrow> 'l file_lock list \<times> nat option list \<Rightarrow> bool" where
  "reg_inv T s = (case s of (fl, held) \<Rightarrow>
     length fl = T \<and> length held = T \<and>
     (\<forall>i<T. users (fl ! i) = int (count_list held (Some i)) \<and>
             (filename (fl ! i) = None \<longleftrightarrow> count_list held (Some i) = 0)) \<and>
     (\<forall>w<T. \<forall>i. held ! w = Some i \<longrightarrow> i < T))"


section \<open>Serving one connection (asgn4/httpserver.c)\<close>

text \<open>
  What \<^verbatim>\<open>handle_connection\<close> does, in order: the calls on the registry entry's lock,
  the handler's system calls, and the audit line written to \<^verbatim>\<open>stderr\<close>.  The registry
  is passed through.  When \<^verbatim>\<open>find_file_lock\<close> returns \<^verbatim>\<open>NULL\<close> the source
  dereferences it: \<open>Inl Null_dereference\<close>.
\<close>

datatype conn_event =
    Lock_read nat
  | Unlock_read nat
  | Lock_write nat
  | Unlock_write nat
  | Syscall syscall
  | Stderr string

datatype crash = Null_dereference

definition write_audit_log :: "string \<Rightarrow> string \<Rightarrow> int \<Rightarrow> string \<Rightarrow> string" where
  "write_audit_log opn URI st req_id =
     opn @ '',/'' @ URI @ '','' @ printf_d st @ '','' @ req_id @ [CHR 0x0A]"

definition handle_connection ::
  "os \<Rightarrow> 'l file_lock list \<Rightarrow> Request option \<Rightarrow>
   crash + (Response \<times> conn_event list \<times> 'l file_lock list)" where
  "handle_connection os file_locks parsed =
     (case parsed of
        None \<Rightarrow> Inr (RESPONSE_UNSENT 400, [], file_locks)
      | Some req \<Rightarrow>
          (case req_get_header_value req ''Request-Id'' of
             None \<Rightarrow> Inr (RESPONSE_UNSENT 400, [], file_locks)
           | Some request_id \<Rightarrow>
               (let URI = uri req in
                case method' req of
                  GET \<Rightarrow>
                    (case find_file_lock file_locks URI of
                       None \<Rightarrow> Inl Null_dereference
                     | Some (i, file_locks') \<Rightarrow>
                         (let r = handle_get os req
                          in Inr (fst r,
                                  [Lock_read i] @ map Syscall (snd r) @
                                  [Stderr (write_audit_log ''GET'' URI (status (fst r)) request_id),
                                   Unlock_read i],
                                  release_file_lock file_locks' i)))
                | PUT \<Rightarrow>
                    (case find_file_lock file_locks URI of
                       None \<Rightarrow> Inl Null_dereference
                     | Some (i, file_locks') \<Rightarrow>
                         (let r = handle_put os req
                          in Inr (fst r,
                                  [Lock_write i] @ map Syscall (snd r) @
                                  [Stderr (write_audit_log ''PUT'' URI (status (fst r)) request_id),
                                   Unlock_write i],
                                  release_file_lock file_locks' i)))
                | UNSUPPORTED \<Rightarrow> Inr (RESPONSE_UNSENT 501, [], file_locks))))"

text \<open>
  The body of \<^verbatim>\<open>worker_thread\<close>'s loop after \<^verbatim>\<open>handle_connection\<close> returns: the canned
  reply, unless the handler has already replied.
\<close>

definition worker_reply :: "int \<Rightarrow> Response \<Rightarrow> syscall list" where
  "worker_reply conn response = (if \<not> responded response then respond conn (status response) else [])"

section \<open>The single-threaded server's request check (asgn2/httpserver.c)\<close>

text \<open>\<^verbatim>\<open>validate_request\<close>: \<open>0\<close> when the request is valid, else the status code.\<close>

definition validate_request :: "Request \<Rightarrow> int" where
  "validate_request req =
     (let m = (case method' req of
                 GET \<Rightarrow> (if body req \<noteq> [] then 400 else 0)
               | PUT \<Rightarrow> 0
               | UNSUPPORTED \<Rightarrow> 501)
      in if m \<noteq> 0 then m
         else if http_ver_major req \<noteq> CHR ''1'' \<or> http_ver_minor req \<noteq> CHR ''1'' then 505
         else 0)"

text \<open>Auxiliary notions for the statements about the audit line and \<^verbatim>\<open>Content-Length\<close>.\<close>

definition is_Stderr :: "conn_event \<Rightarrow> bool" where
  "is_Stderr ev = (case ev of Stderr line \<Rightarrow> True | _ \<Rightarrow> False)"

definition is_digit :: "char \<Rightarrow> bool" where
  "is_digit c = (c \<in> set ''0123456789'')"

definition digit_val :: "char \<Rightarrow> nat" where
  "digit_val c = of_char c - 48"

definition decimal_value :: "string \<Rightarrow> nat" where
  "decimal_value s = foldl (\<lambda>a c. 10 * a + digit_val c) 0 s"


section \<open>Concrete environments and requests\<close>

text \<open>
  Inputs on which the theorems below are evaluated.  In \<open>os_regular_file n\<close> every
  \<^verbatim>\<open>open\<close> and \<^verbatim>\<open>creat\<close> returns descriptor 3, \<^verbatim>\<open>fstat\<close> reports a regular file
  (mode \<^verbatim>\<open>0100644\<close>) of \<open>n\<close> bytes and every write is complete; \<open>os_directory\<close>
  differs in the mode (\<^verbatim>\<open>040755\<close>); in \<open>os_open_fails e\<close> every \<^verbatim>\<open>open\<close> fails
  with \<open>e\<close>; in \<open>os_fstat_fails e\<close> every \<^verbatim>\<open>open\<close> returns descriptor 3 and every
  \<^verbatim>\<open>fstat\<close> fails with \<open>e\<close>; in \<open>os_creat_fails e\<close> no file is there and none can be
  made: every \<^verbatim>\<open>open\<close> fails with \<^verbatim>\<open>ENOENT\<close>, every \<^verbatim>\<open>creat\<close> with \<open>e\<close>, and a write
  returns \<^verbatim>\<open>-1\<close>.
\<close>

definition os_regular_file :: "64 word \<Rightarrow> os" where
  "os_regular_file n =
     \<lparr>sys_open = (\<lambda>path flags. Inr 3), sys_creat = (\<lambda>path mode. Inr 3),
      sys_fstat = (\<lambda>fd. Inr \<lparr>st_mode = 0x81A4, st_size = n\<rparr>),
      sys_write_n_bytes = (\<lambda>fd bytes. word_of_nat (length bytes))\<rparr>"

definition os_directory :: os where
  "os_directory =
     \<lparr>sys_open = (\<lambda>path flags. Inr 3), sys_creat = (\<lambda>path mode. Inr 3),
      sys_fstat = (\<lambda>fd. Inr \<lparr>st_mode = 0x41ED, st_size = 4096\<rparr>),
      sys_write_n_bytes = (\<lambda>fd bytes. word_of_nat (length bytes))\<rparr>"

definition os_open_fails :: "errno \<Rightarrow> os" where
  "os_open_fails e =
     \<lparr>sys_open = (\<lambda>path flags. Inl e), sys_creat = (\<lambda>path mode. Inr 3),
      sys_fstat = (\<lambda>fd. Inl EBADF),
      sys_write_n_bytes = (\<lambda>fd bytes. word_of_nat (length bytes))\<rparr>"

definition os_fstat_fails :: "errno \<Rightarrow> os" where
  "os_fstat_fails e =
     \<lparr>sys_open = (\<lambda>path flags. Inr 3), sys_creat = (\<lambda>path mode. Inr 3),
      sys_fstat = (\<lambda>fd. Inl e),
      sys_write_n_bytes = (\<lambda>fd bytes. word_of_nat (length bytes))\<rparr>"

definition os_creat_fails :: "errno \<Rightarrow> os" where
  "os_creat_fails e =
     \<lparr>sys_open = (\<lambda>path flags. Inl ENOENT), sys_creat = (\<lambda>path mode. Inl e),
      sys_fstat = (\<lambda>fd. Inl EBADF),
      sys_write_n_bytes = (\<lambda>fd bytes. - 1)\<rparr>"

text \<open>
  \<^verbatim>\<open>PUT /a HTTP/1.1\<close> with \<^verbatim>\<open>Request-Id: 2\<close>, the given \<^verbatim>\<open>Content-Length\<close> value and
  the given buffered body; \<^verbatim>\<open>PUT /a\<close> without a \<^verbatim>\<open>Content-Length\<close>; and
  \<^verbatim>\<open>GET /a HTTP/x.y\<close> with \<^verbatim>\<open>Request-Id: 5\<close>, on connection 5.
\<close>

definition put_request :: "string \<Rightarrow> string \<Rightarrow> Request" where
  "put_request cl b =
     \<lparr>sockfd = 5, method' = PUT, uri = ''a'', http_ver_major = CHR ''1'', http_ver_minor = CHR ''1'',
      headers = [\<lparr>key = ''Request-Id'', value' = ''2''\<rparr>, \<lparr>key = ''Content-Length'', value' = cl\<rparr>],
      body = b\<rparr>"

definition put_request_no_length :: Request where
  "put_request_no_length =
     \<lparr>sockfd = 5, method' = PUT, uri = ''a'', http_ver_major = CHR ''1'', http_ver_minor = CHR ''1'',
      headers = [\<lparr>key = ''Request-Id'', value' = ''2''\<rparr>], body = []\<rparr>"

definition get_request :: "char \<Rightarrow> char \<Rightarrow> Request" where
  "get_request major minor =
     \<lparr>sockfd = 5, method' = GET, uri = ''a'', http_ver_major = major, http_ver_minor = minor,
      headers = [\<lparr>key = ''Request-Id'', value' = ''5''\<rparr>], body = []\<rparr>"


section \<open>The bounded queue (asgn3/queue.c)\<close>

text \<open>
  The queue's fields, with the two mutexes as flags and the two semaphores as
  counters.  \<^verbatim>\<open>size\<close>, \<^verbatim>\<open>head\<close> and \<^verbatim>\<open>tail\<close> are C \<^verbatim>\<open>int\<close>s that never leave
  \<open>0 .. size\<close>, modelled as naturals; \<^verbatim>\<open>size\<close> carries a prime because HOL has a
  constant of that name.  \<^verbatim>\<open>malloc\<close> does not initialise the buffer: what it holds at
  first is a parameter of \<open>queue_new\<close>.
\<close>

record 'a queue =
  size' :: nat
  buf :: "'a list"
  head :: nat
  tail :: nat
  wr_lock :: bool
  rd_lock :: bool
  rd_sem :: nat
  wr_sem :: nat

definition queue_new :: "int \<Rightarrow> (nat \<Rightarrow> 'a) \<Rightarrow> 'a queue option" where
  "queue_new sz garbage =
     (if sz \<le> 0 then None
      else Some \<lparr>size' = nat sz, buf = map garbage [0..<nat sz], head = 0, tail = 0,
                 wr_lock = False, rd_lock = False, rd_sem = 0, wr_sem = nat sz\<rparr>)"

text \<open>
  Where a thread stands in \<^verbatim>\<open>queue_push\<close> or \<^verbatim>\<open>queue_pop\<close>: each constructor is the
  statement it executes next, with the element it carries.
\<close>

datatype 'a qpc =
    Q_idle
  | Push_sem_wait 'a
  | Push_mutex_lock 'a
  | Push_store 'a
  | Push_mod
  | Push_mutex_unlock
  | Push_sem_post
  | Pop_sem_wait
  | Pop_mutex_lock
  | Pop_load
  | Pop_mod 'a
  | Pop_mutex_unlock 'a
  | Pop_sem_post 'a

text \<open>
  A state of the threads that share one queue: the queue, where each thread stands,
  and two records of the run, the elements in the order they were stored into the
  buffer and in the order they were loaded from it.
\<close>

record 'a qstate =
  que :: "'a queue"
  qpcs :: "'a qpc list"
  stored :: "'a list"
  loaded :: "'a list"

datatype 'a qevent = Call_push nat 'a | Call_pop nat | Run nat

text \<open>
  One statement of thread \<open>t\<close>.  \<open>None\<close>: the thread is blocked there
  (\<^verbatim>\<open>sem_wait\<close> on a semaphore at 0, \<^verbatim>\<open>pthread_mutex_lock\<close> on a held mutex), or has
  nothing to run.  A store or load outside the buffer does not happen in the model
  (\<open>None\<close>); the invariant shows it is never attempted.
\<close>

definition q_run :: "'a qstate \<Rightarrow> nat \<Rightarrow> 'a qstate option" where
  "q_run s t =
     (let q = que s; go = (\<lambda>q' pc'. s\<lparr>que := q', qpcs := (qpcs s)[t := pc']\<rparr>) in
      case qpcs s ! t of
        Q_idle \<Rightarrow> None
      | Push_sem_wait x \<Rightarrow>
          if wr_sem q = 0 then None else Some (go (q\<lparr>wr_sem := wr_sem q - 1\<rparr>) (Push_mutex_lock x))
      | Push_mutex_lock x \<Rightarrow>
          if wr_lock q then None else Some (go (q\<lparr>wr_lock := True\<rparr>) (Push_store x))
      | Push_store x \<Rightarrow>
          if head q < length (buf q)
          then Some ((go (q\<lparr>buf := (buf q)[head q := x], head := head q + 1\<rparr>) Push_mod)
                       \<lparr>stored := stored s @ [x]\<rparr>)
          else None
      | Push_mod \<Rightarrow> Some (go (q\<lparr>head := head q mod size' q\<rparr>) Push_mutex_unlock)
      | Push_mutex_unlock \<Rightarrow> Some (go (q\<lparr>wr_lock := False\<rparr>) Push_sem_post)
      | Push_sem_post \<Rightarrow> Some (go (q\<lparr>rd_sem := rd_sem q + 1\<rparr>) Q_idle)
      | Pop_sem_wait \<Rightarrow>
          if rd_sem q = 0 then None else Some (go (q\<lparr>rd_sem := rd_sem q - 1\<rparr>) Pop_mutex_lock)
      | Pop_mutex_lock \<Rightarrow>
          if rd_lock q then None else Some (go (q\<lparr>rd_lock := True\<rparr>) Pop_load)
      | Pop_load \<Rightarrow>
          if tail q < length (buf q)
          then Some ((go (q\<lparr>tail := tail q + 1\<rparr>) (Pop_mod (buf q ! tail q)))
                       \<lparr>loaded := loaded s @ [buf q ! tail q]\<rparr>)
          else None
      | Pop_mod x \<Rightarrow> Some (go (q\<lparr>tail := tail q mod size' q\<rparr>) (Pop_mutex_unlock x))
      | Pop_mutex_unlock x \<Rightarrow> Some (go (q\<lparr>rd_lock := False\<rparr>) (Pop_sem_post x))
      | Pop_sem_post x \<Rightarrow> Some (go (q\<lparr>wr_sem := wr_sem q + 1\<rparr>) Q_idle))"

fun q_step :: "'a qstate \<Rightarrow> 'a qevent \<Rightarrow> 'a qstate option" where
  "q_step s (Call_push t x) =
     (if t < length (qpcs s) \<and> qpcs s ! t = Q_idle
      then Some (s\<lparr>qpcs := (qpcs s)[t := Push_sem_wait x]\<rparr>) else None)"
| "q_step s (Call_pop t) =
     (if t < length (qpcs s) \<and> qpcs s ! t = Q_idle
      then Some (s\<lparr>qpcs := (qpcs s)[t := Pop_sem_wait]\<rparr>) else None)"
| "q_step s (Run t) = (if t < length (qpcs s) then q_run s t else None)"

fun q_exec :: "'a qstate \<Rightarrow> 'a qevent list \<Rightarrow> 'a qstate option" where
  "q_exec s [] = Some s"
| "q_exec s (e # es) = (case q_step s e of None \<Rightarrow> None | Some s' \<Rightarrow> q_exec s' es)"

definition q_init :: "'a queue \<Rightarrow> nat \<Rightarrow> 'a qstate" where
  "q_init q n = \<lparr>que = q, qpcs = replicate n Q_idle, stored = [], loaded = []\<rparr>"

text \<open>Counting the threads that stand at one of some statements.\<close>

definition count_at :: "('p \<Rightarrow> bool) \<Rightarrow> 'p list \<Rightarrow> nat" where
  "count_at P pcs = length (filter P pcs)"

definition push_waited :: "'a qpc \<Rightarrow> bool" where
  "push_waited pc = (case pc of Push_mutex_lock x \<Rightarrow> True | Push_store x \<Rightarrow> True | _ \<Rightarrow> False)"

definition push_stored :: "'a qpc \<Rightarrow> bool" where
  "push_stored pc = (case pc of Push_mod \<Rightarrow> True | Push_mutex_unlock \<Rightarrow> True | Push_sem_post \<Rightarrow> True
                     | _ \<Rightarrow> False)"

definition pop_waited :: "'a qpc \<Rightarrow> bool" where
  "pop_waited pc = (case pc of Pop_mutex_lock \<Rightarrow> True | Pop_load \<Rightarrow> True | _ \<Rightarrow> False)"

definition pop_loaded :: "'a qpc \<Rightarrow> bool" where
  "pop_loaded pc = (case pc of Pop_mod x \<Rightarrow> True | Pop_mutex_unlock x \<Rightarrow> True | Pop_sem_post x \<Rightarrow> True
                    | _ \<Rightarrow> False)"

definition holds_wr_lock :: "'a qpc \<Rightarrow> bool" where
  "holds_wr_lock pc = (case pc of Push_store x \<Rightarrow> True | Push_mod \<Rightarrow> True | Push_mutex_unlock \<Rightarrow> True
                       | _ \<Rightarrow> False)"

definition holds_rd_lock :: "'a qpc \<Rightarrow> bool" where
  "holds_rd_lock pc = (case pc of Pop_load \<Rightarrow> True | Pop_mod x \<Rightarrow> True | Pop_mutex_unlock x \<Rightarrow> True
                       | _ \<Rightarrow> False)"

definition at_push_mod :: "'a qpc \<Rightarrow> bool" where
  "at_push_mod pc = (case pc of Push_mod \<Rightarrow> True | _ \<Rightarrow> False)"

definition at_pop_mod :: "'a qpc \<Rightarrow> bool" where
  "at_pop_mod pc = (case pc of Pop_mod x \<Rightarrow> True | _ \<Rightarrow> False)"

text \<open>
  The invariant of the run, for capacity \<open>C\<close>: the semaphores count the free and
  the filled slots, \<^verbatim>\<open>head\<close> and \<^verbatim>\<open>tail\<close> are the numbers of stores and loads modulo
  \<open>C\<close> (one more between the increment and the \<^verbatim>\<open>%=\<close>), the buffer holds the
  elements stored and not yet loaded, and the loads are the first stores.
\<close>

definition q_inv :: "nat \<Rightarrow> 'a qstate \<Rightarrow> bool" where
  "q_inv C s =
     (let q = que s; W = length (stored s); R = length (loaded s); pcs = qpcs s in
      0 < C \<and> size' q = C \<and> length (buf q) = C \<and>
      count_at holds_wr_lock pcs = (if wr_lock q then 1 else 0) \<and>
      count_at holds_rd_lock pcs = (if rd_lock q then 1 else 0) \<and>
      wr_sem q + W + count_at push_waited pcs + count_at pop_loaded pcs = C + R \<and>
      rd_sem q + R + count_at pop_waited pcs + count_at push_stored pcs = W \<and>
      count_at pop_loaded pcs \<le> R \<and>
      head q = (if 0 < count_at at_push_mod pcs then (W - 1) mod C + 1 else W mod C) \<and>
      tail q = (if 0 < count_at at_pop_mod pcs then (R - 1) mod C + 1 else R mod C) \<and>
      (\<forall>k. R \<le> k \<and> k < W \<longrightarrow> buf q ! (k mod C) = stored s ! k) \<and>
      loaded s = take R (stored s))"

text \<open>A whole call by one thread: the call and its six statements.\<close>

definition push_events :: "nat \<Rightarrow> 'a \<Rightarrow> 'a qevent list" where
  "push_events t x = Call_push t x # replicate 6 (Run t)"

definition pop_events :: "nat \<Rightarrow> 'a qevent list" where
  "pop_events t = Call_pop t # replicate 6 (Run t)"


section \<open>The reader/writer lock (asgn3/rwlock.c)\<close>

text \<open>
  \<^verbatim>\<open>struct rwlock\<close>.  The union \<^verbatim>\<open>state\<close> overlays the three policies' structs; a lock
  only ever uses the member of its own priority, so the model has one record with
  the fields of all three (the fields of the same name are one field).  The counters
  are \<^verbatim>\<open>uint32_t\<close>; the mutex is a flag, the semaphore \<^verbatim>\<open>write_lock\<close> its value.
  Condition variables carry no state: POSIX lets a waiting thread wake up at any
  time, and every wait of the source stands in a loop that tests its condition again.
\<close>

datatype PRIORITY = READERS | WRITERS | N_WAY

record pstate =
  n :: "32 word"
  readers_waiting :: "32 word"
  readers_passed :: "32 word"
  writers_waiting :: "32 word"
  writer_holding :: bool

record rwlock =
  state :: pstate
  priority :: PRIORITY
  readers_holding :: "32 word"
  mutex :: bool
  write_lock :: nat

text \<open>
  \<^verbatim>\<open>rwlock_new\<close>.  \<open>mem\<close> is what \<^verbatim>\<open>malloc\<close> returns: the fields that the chosen
  policy does not initialise keep it.
\<close>

definition rwlock_new :: "PRIORITY \<Rightarrow> 32 word \<Rightarrow> pstate \<Rightarrow> rwlock option" where
  "rwlock_new p k mem =
     (case p of
        N_WAY \<Rightarrow>
          if k = 0 then None
          else Some \<lparr>state = mem\<lparr>n := k, readers_waiting := 0, readers_passed := 0, writers_waiting := 0\<rparr>,
                     priority = p, readers_holding = 0, mutex = False, write_lock = 1\<rparr>
      | WRITERS \<Rightarrow>
          Some \<lparr>state = mem\<lparr>writers_waiting := 0, readers_waiting := 0\<rparr>,
                priority = p, readers_holding = 0, mutex = False, write_lock = 1\<rparr>
      | READERS \<Rightarrow>
          Some \<lparr>state = mem\<lparr>writer_holding := False, writers_waiting := 0\<rparr>,
                priority = p, readers_holding = 0, mutex = False, write_lock = 1\<rparr>)"

text \<open>
  The statements of the twelve functions.  A function is the list of its statements
  in source order; a statement goes on to the next one unless it names its targets.
  \<open>Update\<close> assigns to fields of \<^verbatim>\<open>rw->state\<close>; \<open>If_no_readers a b\<close> is
  \<^verbatim>\<open>if (!rw->readers_holding)\<close>, going to \<open>a\<close> when it holds and to \<open>b\<close> otherwise;
  \<open>Branch c a b\<close> is any other test; \<^verbatim>\<open>pthread_cond_wait\<close> is \<open>Cond_wait_unlock\<close>
  (the mutex is released, the thread blocks) followed by \<open>Cond_wait_relock a\<close> (the
  thread wakes, takes the mutex again and goes to \<open>a\<close>, the loop's test); \<open>Wake\<close> is
  a statement that only signals or broadcasts on a condition variable.
\<close>

datatype stmt =
    Mutex_lock
  | Mutex_unlock
  | Sem_wait
  | Sem_post
  | Cond_wait_unlock
  | Cond_wait_relock nat
  | Update "pstate \<Rightarrow> pstate"
  | Inc_readers_holding
  | Dec_readers_holding
  | If_no_readers nat nat
  | Branch "rwlock \<Rightarrow> bool" nat nat
  | Goto nat
  | Wake
  | Return

subsection \<open>Reader priority\<close>

definition rd_priority_rd_lock :: "stmt list" where
  "rd_priority_rd_lock =
     [Mutex_lock,
      If_no_readers 2 3,
      Sem_wait,
      Inc_readers_holding,
      Mutex_unlock,
      Return]"

text \<open>Statement 4 is \<^verbatim>\<open>if (STATE.writers_waiting) pthread_cond_signal(&STATE.wr_cond)\<close>.\<close>

definition rd_priority_rd_unlock :: "stmt list" where
  "rd_priority_rd_unlock =
     [Mutex_lock,
      Dec_readers_holding,
      If_no_readers 3 5,
      Sem_post,
      Wake,
      Mutex_unlock,
      Return]"

definition rd_priority_wr_lock :: "stmt list" where
  "rd_priority_wr_lock =
     [Mutex_lock,
      Update (\<lambda>st. st\<lparr>writers_waiting := writers_waiting st + 1\<rparr>),
      Branch (\<lambda>rw. readers_holding rw \<noteq> 0 \<or> writer_holding (state rw)) 3 5,
      Cond_wait_unlock,
      Cond_wait_relock 2,
      Update (\<lambda>st. st\<lparr>writers_waiting := writers_waiting st - 1\<rparr>),
      Update (\<lambda>st. st\<lparr>writer_holding := True\<rparr>),
      Mutex_unlock,
      Sem_wait,
      Return]"

text \<open>
  Statement 3 is
  \<^verbatim>\<open>if (!rw->readers_holding && STATE.writers_waiting) pthread_cond_signal(&STATE.wr_cond)\<close>.
\<close>

definition rd_priority_wr_unlock :: "stmt list" where
  "rd_priority_wr_unlock =
     [Sem_post,
      Mutex_lock,
      Update (\<lambda>st. st\<lparr>writer_holding := False\<rparr>),
      Wake,
      Mutex_unlock,
      Return]"

subsection \<open>Writer priority\<close>

definition wr_priority_rd_lock :: "stmt list" where
  "wr_priority_rd_lock =
     [Mutex_lock,
      Update (\<lambda>st. st\<lparr>readers_waiting := readers_waiting st + 1\<rparr>),
      Branch (\<lambda>rw. writers_waiting (state rw) \<noteq> 0) 3 5,
      Cond_wait_unlock,
      Cond_wait_relock 2,
      If_no_readers 6 7,
      Sem_wait,
      Update (\<lambda>st. st\<lparr>readers_waiting := readers_waiting st - 1\<rparr>),
      Inc_readers_holding,
      Mutex_unlock,
      Return]"

text \<open>
  Statement 5 is the \<^verbatim>\<open>else if\<close> branch,
  \<^verbatim>\<open>if (!STATE.writers_waiting && STATE.readers_waiting) pthread_cond_broadcast(&STATE.rd_cond)\<close>;
  statement 4 leaves the \<^verbatim>\<open>if\<close> branch.
\<close>

definition wr_priority_rd_unlock :: "stmt list" where
  "wr_priority_rd_unlock =
     [Mutex_lock,
      Dec_readers_holding,
      If_no_readers 3 5,
      Sem_post,
      Goto 6,
      Wake,
      Mutex_unlock,
      Return]"

definition wr_priority_wr_lock :: "stmt list" where
  "wr_priority_wr_lock =
     [Mutex_lock,
      Update (\<lambda>st. st\<lparr>writers_waiting := writers_waiting st + 1\<rparr>),
      Mutex_unlock,
      Sem_wait,
      Return]"

text \<open>
  Statement 2 is
  \<^verbatim>\<open>if (!STATE.writers_waiting && STATE.readers_waiting) pthread_cond_broadcast(&STATE.rd_cond)\<close>.
\<close>

definition wr_priority_wr_unlock :: "stmt list" where
  "wr_priority_wr_unlock =
     [Mutex_lock,
      Update (\<lambda>st. st\<lparr>writers_waiting := writers_waiting st - 1\<rparr>),
      Wake,
      Sem_post,
      Mutex_unlock,
      Return]"

subsection \<open>N-way priority\<close>

definition nway_priority_rd_lock :: "stmt list" where
  "nway_priority_rd_lock =
     [Mutex_lock,
      Update (\<lambda>st. st\<lparr>readers_waiting := readers_waiting st + 1\<rparr>),
      Branch (\<lambda>rw. n (state rw) \<le> readers_passed (state rw) \<and> writers_waiting (state rw) \<noteq> 0) 3 5,
      Cond_wait_unlock,
      Cond_wait_relock 2,
      Branch (\<lambda>rw. readers_passed (state rw) < n (state rw)) 6 7,
      Update (\<lambda>st. st\<lparr>readers_passed := readers_passed st + 1\<rparr>),
      Update (\<lambda>st. st\<lparr>readers_waiting := readers_waiting st - 1\<rparr>),
      If_no_readers 9 10,
      Sem_wait,
      Inc_readers_holding,
      Mutex_unlock,
      Return]"

text \<open>
  Statement 4 is the whole \<^verbatim>\<open>if (STATE.writers_waiting) ... else ...\<close> that follows
  the \<^verbatim>\<open>sem_post\<close>: it signals the writers' condition once, or signals or broadcasts
  the readers' condition, and assigns to no field.
\<close>

definition nway_priority_rd_unlock :: "stmt list" where
  "nway_priority_rd_unlock =
     [Mutex_lock,
      Dec_readers_holding,
      If_no_readers 3 5,
      Sem_post,
      Wake,
      Mutex_unlock,
      Return]"

definition nway_priority_wr_lock :: "stmt list" where
  "nway_priority_wr_lock =
     [Mutex_lock,
      Update (\<lambda>st. st\<lparr>writers_waiting := writers_waiting st + 1\<rparr>),
      Branch (\<lambda>rw. readers_holding rw \<noteq> 0 \<or>
                    (readers_passed (state rw) < n (state rw) \<and> readers_waiting (state rw) \<noteq> 0)) 3 5,
      Cond_wait_unlock,
      Cond_wait_relock 2,
      Mutex_unlock,
      Sem_wait,
      Return]"

text \<open>
  Statement 4 is the \<^verbatim>\<open>if (STATE.readers_waiting) ... else ...\<close> that wakes up to
  \<^verbatim>\<open>n\<close> readers, or one writer.
\<close>

definition nway_priority_wr_unlock :: "stmt list" where
  "nway_priority_wr_unlock =
     [Sem_post,
      Mutex_lock,
      Update (\<lambda>st. st\<lparr>writers_waiting := writers_waiting st - 1\<rparr>),
      Update (\<lambda>st. st\<lparr>readers_passed := 0\<rparr>),
      Wake,
      Mutex_unlock,
      Return]"

subsection \<open>The four entry points\<close>

definition reader_lock :: "PRIORITY \<Rightarrow> stmt list" where
  "reader_lock p = (case p of N_WAY \<Rightarrow> nway_priority_rd_lock | READERS \<Rightarrow> rd_priority_rd_lock
                    | WRITERS \<Rightarrow> wr_priority_rd_lock)"

definition reader_unlock :: "PRIORITY \<Rightarrow> stmt list" where
  "reader_unlock p = (case p of N_WAY \<Rightarrow> nway_priority_rd_unlock | READERS \<Rightarrow> rd_priority_rd_unlock
                      | WRITERS \<Rightarrow> wr_priority_rd_unlock)"

definition writer_lock :: "PRIORITY \<Rightarrow> stmt list" where
  "writer_lock p = (case p of N_WAY \<Rightarrow> nway_priority_wr_lock | READERS \<Rightarrow> rd_priority_wr_lock
                    | WRITERS \<Rightarrow> wr_priority_wr_lock)"

definition writer_unlock :: "PRIORITY \<Rightarrow> stmt list" where
  "writer_unlock p = (case p of N_WAY \<Rightarrow> nway_priority_wr_unlock | READERS \<Rightarrow> rd_priority_wr_unlock
                      | WRITERS \<Rightarrow> wr_priority_wr_unlock)"

datatype opn = Rd_lock | Rd_unlock | Wr_lock | Wr_unlock

definition code :: "PRIORITY \<Rightarrow> opn \<Rightarrow> stmt list" where
  "code p f = (case f of Rd_lock \<Rightarrow> reader_lock p | Rd_unlock \<Rightarrow> reader_unlock p
               | Wr_lock \<Rightarrow> writer_lock p | Wr_unlock \<Rightarrow> writer_unlock p)"

subsection \<open>Threads\<close>

text \<open>
  A thread is outside the lock (\<open>Idle\<close>), in the critical section after
  \<^verbatim>\<open>reader_lock\<close> (\<open>Reading\<close>) or \<^verbatim>\<open>writer_lock\<close> (\<open>Writing\<close>) returned, or at a
  statement of one of the four functions.  One statement of one thread is one step;
  \<open>None\<close>: the thread is blocked there.
\<close>

datatype pc = Idle | Reading | Writing | In opn nat

fun exec :: "stmt \<Rightarrow> nat \<Rightarrow> rwlock \<Rightarrow> (rwlock \<times> nat option) option" where
  "exec Mutex_lock l rw = (if mutex rw then None else Some (rw\<lparr>mutex := True\<rparr>, Some (l + 1)))"
| "exec Mutex_unlock l rw = Some (rw\<lparr>mutex := False\<rparr>, Some (l + 1))"
| "exec Sem_wait l rw =
     (if write_lock rw = 0 then None else Some (rw\<lparr>write_lock := write_lock rw - 1\<rparr>, Some (l + 1)))"
| "exec Sem_post l rw = Some (rw\<lparr>write_lock := write_lock rw + 1\<rparr>, Some (l + 1))"
| "exec Cond_wait_unlock l rw = Some (rw\<lparr>mutex := False\<rparr>, Some (l + 1))"
| "exec (Cond_wait_relock a) l rw = (if mutex rw then None else Some (rw\<lparr>mutex := True\<rparr>, Some a))"
| "exec (Update f) l rw = Some (rw\<lparr>state := f (state rw)\<rparr>, Some (l + 1))"
| "exec Inc_readers_holding l rw = Some (rw\<lparr>readers_holding := readers_holding rw + 1\<rparr>, Some (l + 1))"
| "exec Dec_readers_holding l rw = Some (rw\<lparr>readers_holding := readers_holding rw - 1\<rparr>, Some (l + 1))"
| "exec (If_no_readers a b) l rw = Some (rw, Some (if readers_holding rw = 0 then a else b))"
| "exec (Branch c a b) l rw = Some (rw, Some (if c rw then a else b))"
| "exec (Goto a) l rw = Some (rw, Some a)"
| "exec Wake l rw = Some (rw, Some (l + 1))"
| "exec Return l rw = Some (rw, None)"

definition returned :: "opn \<Rightarrow> pc" where
  "returned f = (case f of Rd_lock \<Rightarrow> Reading | Rd_unlock \<Rightarrow> Idle | Wr_lock \<Rightarrow> Writing | Wr_unlock \<Rightarrow> Idle)"

definition caller :: "opn \<Rightarrow> pc" where
  "caller f = (case f of Rd_lock \<Rightarrow> Idle | Rd_unlock \<Rightarrow> Reading | Wr_lock \<Rightarrow> Idle | Wr_unlock \<Rightarrow> Writing)"

record sys =
  rw :: rwlock
  threads :: "pc list"

definition rw_run :: "sys \<Rightarrow> nat \<Rightarrow> sys option" where
  "rw_run s t =
     (case threads s ! t of
        In f l \<Rightarrow>
          (let prog = code (priority (rw s)) f in
           if l < length prog then
             (case exec (prog ! l) l (rw s) of
                None \<Rightarrow> None
              | Some (rw', nxt) \<Rightarrow>
                  Some \<lparr>rw = rw',
                        threads = (threads s)[t := (case nxt of Some l' \<Rightarrow> In f l' | None \<Rightarrow> returned f)]\<rparr>)
           else None)
      | _ \<Rightarrow> None)"

text \<open>
  The calls a thread may make: \<^verbatim>\<open>reader_lock\<close> and \<^verbatim>\<open>writer_lock\<close> when it is outside
  the lock, \<^verbatim>\<open>reader_unlock\<close> after its \<^verbatim>\<open>reader_lock\<close> returned, \<^verbatim>\<open>writer_unlock\<close>
  after its \<^verbatim>\<open>writer_lock\<close> returned.
\<close>

datatype rw_event = Call opn nat | Step nat

fun rw_step :: "sys \<Rightarrow> rw_event \<Rightarrow> sys option" where
  "rw_step s (Call f t) =
     (if t < length (threads s) \<and> threads s ! t = caller f
      then Some (s\<lparr>threads := (threads s)[t := In f 0]\<rparr>) else None)"
| "rw_step s (Step t) = (if t < length (threads s) then rw_run s t else None)"

fun rw_exec :: "sys \<Rightarrow> rw_event list \<Rightarrow> sys option" where
  "rw_exec s [] = Some s"
| "rw_exec s (e # es) = (case rw_step s e of None \<Rightarrow> None | Some s' \<Rightarrow> rw_exec s' es)"

definition rw_init :: "rwlock \<Rightarrow> nat \<Rightarrow> sys" where
  "rw_init l k = \<lparr>rw = l, threads = replicate k Idle\<rparr>"


subsection \<open>What a thread holds at each statement\<close>

text \<open>
  For the proof of mutual exclusion, every statement is labelled with whether the
  thread that stands before it holds the mutex, and with the thread's part in the write
  gate: \<open>Out\<close>, it has no part; \<open>Joining\<close>, a reader that has the gate (it took it,
  or found readers holding) and has not yet incremented \<^verbatim>\<open>readers_holding\<close>;
  \<open>Counted\<close>, a reader between its increment and its decrement; \<open>Left_test\<close>, a
  reader that has decremented and tests whether it was the last; \<open>Last\<close>, the last
  reader, about to post the gate; \<open>Holds\<close>, a writer between its \<^verbatim>\<open>sem_wait\<close> and its
  \<^verbatim>\<open>sem_post\<close>.  The labels are checked against the statements below
  (\<open>labels_ok\<close>), statement by statement.
\<close>

datatype part = Out | Joining | Counted | Left_test | Last | Holds

definition labels :: "PRIORITY \<Rightarrow> opn \<Rightarrow> (bool \<times> part) list" where
  "labels p f =
     (case (p, f) of
        (READERS, Rd_lock) \<Rightarrow>
          [(False, Out), (True, Out), (True, Out), (True, Joining), (True, Counted), (False, Counted)]
      | (READERS, Rd_unlock) \<Rightarrow>
          [(False, Counted), (True, Counted), (True, Left_test), (True, Last), (True, Out), (True, Out),
           (False, Out)]
      | (READERS, Wr_lock) \<Rightarrow>
          [(False, Out), (True, Out), (True, Out), (True, Out), (False, Out), (True, Out), (True, Out),
           (True, Out), (False, Out), (False, Holds)]
      | (READERS, Wr_unlock) \<Rightarrow>
          [(False, Holds), (False, Out), (True, Out), (True, Out), (True, Out), (False, Out)]
      | (WRITERS, Rd_lock) \<Rightarrow>
          [(False, Out), (True, Out), (True, Out), (True, Out), (False, Out), (True, Out), (True, Out),
           (True, Joining), (True, Joining), (True, Counted), (False, Counted)]
      | (WRITERS, Rd_unlock) \<Rightarrow>
          [(False, Counted), (True, Counted), (True, Left_test), (True, Last), (True, Out), (True, Out),
           (True, Out), (False, Out)]
      | (WRITERS, Wr_lock) \<Rightarrow>
          [(False, Out), (True, Out), (True, Out), (False, Out), (False, Holds)]
      | (WRITERS, Wr_unlock) \<Rightarrow>
          [(False, Holds), (True, Holds), (True, Holds), (True, Holds), (True, Out), (False, Out)]
      | (N_WAY, Rd_lock) \<Rightarrow>
          [(False, Out), (True, Out), (True, Out), (True, Out), (False, Out), (True, Out), (True, Out),
           (True, Out), (True, Out), (True, Out), (True, Joining), (True, Counted), (False, Counted)]
      | (N_WAY, Rd_unlock) \<Rightarrow>
          [(False, Counted), (True, Counted), (True, Left_test), (True, Last), (True, Out), (True, Out),
           (False, Out)]
      | (N_WAY, Wr_lock) \<Rightarrow>
          [(False, Out), (True, Out), (True, Out), (True, Out), (False, Out), (True, Out), (False, Out),
           (False, Holds)]
      | (N_WAY, Wr_unlock) \<Rightarrow>
          [(False, Holds), (False, Out), (True, Out), (True, Out), (True, Out), (True, Out), (False, Out)])"

definition label_of :: "PRIORITY \<Rightarrow> pc \<Rightarrow> bool \<times> part" where
  "label_of p c =
     (case c of
        Idle \<Rightarrow> (False, Out)
      | Reading \<Rightarrow> (False, Counted)
      | Writing \<Rightarrow> (False, Holds)
      | In f l \<Rightarrow> (if l < length (labels p f) then labels p f ! l else (False, Out)))"

definition has_mutex :: "PRIORITY \<Rightarrow> pc \<Rightarrow> bool" where
  "has_mutex p c = fst (label_of p c)"

definition part_is :: "PRIORITY \<Rightarrow> part \<Rightarrow> pc \<Rightarrow> bool" where
  "part_is p x c = (snd (label_of p c) = x)"

text \<open>
  The check of one statement: \<open>F\<close> gives the labels of the function's statements,
  \<open>len\<close> their number, \<open>l\<close> is the statement's index and \<open>ret\<close> the label of the
  state the function returns to.
\<close>

fun stmt_ok :: "(nat \<Rightarrow> bool \<times> part) \<Rightarrow> nat \<Rightarrow> (bool \<times> part) \<Rightarrow> stmt \<Rightarrow> nat \<Rightarrow> bool" where
  "stmt_ok F len ret Mutex_lock l =
     (l + 1 < len \<and> \<not> fst (F l) \<and> fst (F (l + 1)) \<and> snd (F (l + 1)) = snd (F l))"
| "stmt_ok F len ret Mutex_unlock l =
     (l + 1 < len \<and> fst (F l) \<and> \<not> fst (F (l + 1)) \<and> snd (F (l + 1)) = snd (F l))"
| "stmt_ok F len ret Sem_wait l =
     (l + 1 < len \<and> fst (F (l + 1)) = fst (F l) \<and> snd (F l) = Out \<and>
      (snd (F (l + 1)) = Joining \<or> snd (F (l + 1)) = Holds))"
| "stmt_ok F len ret Sem_post l =
     (l + 1 < len \<and> fst (F (l + 1)) = fst (F l) \<and> (snd (F l) = Last \<or> snd (F l) = Holds) \<and>
      snd (F (l + 1)) = Out)"
| "stmt_ok F len ret Cond_wait_unlock l =
     (l + 1 < len \<and> fst (F l) \<and> \<not> fst (F (l + 1)) \<and> snd (F (l + 1)) = snd (F l))"
| "stmt_ok F len ret (Cond_wait_relock a) l =
     (a < len \<and> \<not> fst (F l) \<and> fst (F a) \<and> snd (F a) = snd (F l))"
| "stmt_ok F len ret (Update f) l = (l + 1 < len \<and> F (l + 1) = F l)"
| "stmt_ok F len ret Inc_readers_holding l =
     (l + 1 < len \<and> F l = (True, Joining) \<and> F (l + 1) = (True, Counted))"
| "stmt_ok F len ret Dec_readers_holding l =
     (l + 1 < len \<and> F l = (True, Counted) \<and> F (l + 1) = (True, Left_test))"
| "stmt_ok F len ret (If_no_readers a b) l =
     (a < len \<and> b < len \<and>
      (F l = (True, Out) \<and> F a = (True, Out) \<and> F b = (True, Joining) \<or>
       F l = (True, Left_test) \<and> F a = (True, Last) \<and> F b = (True, Out)))"
| "stmt_ok F len ret (Branch c a b) l = (a < len \<and> b < len \<and> F a = F l \<and> F b = F l)"
| "stmt_ok F len ret (Goto a) l = (a < len \<and> F a = F l)"
| "stmt_ok F len ret Wake l = (l + 1 < len \<and> F (l + 1) = F l)"
| "stmt_ok F len ret Return l = (F l = ret)"

definition needs_mutex :: "bool \<times> part \<Rightarrow> bool" where
  "needs_mutex x = (if snd x = Joining \<or> snd x = Left_test \<or> snd x = Last then fst x else True)"

definition labels_ok :: "PRIORITY \<Rightarrow> opn \<Rightarrow> bool" where
  "labels_ok p f =
     (let prog = code p f; F = (\<lambda>l. labels p f ! l); len = length prog in
      length (labels p f) = len \<and> 0 < len \<and> F 0 = label_of p (caller f) \<and>
      list_all (\<lambda>l. stmt_ok F len (label_of p (returned f)) (prog ! l) l \<and> needs_mutex (F l)) [0..<len])"

text \<open>
  The invariant of the lock for priority \<open>p\<close>: one thread at most holds the mutex;
  the gate's value, the writers that hold it and the readers' cohort add up to one;
  \<^verbatim>\<open>readers_holding\<close> is the number of counted readers (modulo \<open>2 ^ 32\<close>, which the
  cohort never exceeds); and the last reader posts the gate with \<^verbatim>\<open>readers_holding\<close>
  at zero.
\<close>

definition cohort :: "PRIORITY \<Rightarrow> pc list \<Rightarrow> nat" where
  "cohort p cs = count_at (part_is p Joining) cs + count_at (part_is p Counted) cs +
                 count_at (part_is p Left_test) cs + count_at (part_is p Last) cs"

definition rw_inv :: "PRIORITY \<Rightarrow> sys \<Rightarrow> bool" where
  "rw_inv p s =
     (let l = rw s; cs = threads s in
      priority l = p \<and>
      count_at (has_mutex p) cs = (if mutex l then 1 else 0) \<and>
      write_lock l + count_at (part_is p Holds) cs + (if 0 < cohort p cs then 1 else 0) = 1 \<and>
      readers_holding l = word_of_nat (count_at (part_is p Counted) cs) \<and>
      cohort p cs \<le> 2 ^ 32 \<and>
      (if 0 < count_at (part_is p Last) cs then readers_holding l = 0 else True))"


subsection \<open>Observations of a run\<close>

text \<open>
  A thread is a waiting writer when it has called \<^verbatim>\<open>writer_lock\<close> and has not yet
  passed the \<^verbatim>\<open>sem_wait\<close> on the write gate.  \<open>admitted w s evs\<close> is the number of
  steps of the run \<open>evs\<close> from \<open>s\<close> by which a reader enters the critical section
  (its \<^verbatim>\<open>reader_lock\<close> returns), when thread \<open>w\<close> is a waiting writer in every state
  of the run, and \<open>None\<close> when it is not, or when the run is not one of the lock.
\<close>

definition writer_waiting :: "PRIORITY \<Rightarrow> pc \<Rightarrow> bool" where
  "writer_waiting p c = (case c of In f l \<Rightarrow> f = Wr_lock \<and> part_is p Out c | _ \<Rightarrow> False)"

definition readers_inside :: "sys \<Rightarrow> nat" where
  "readers_inside s = count_at (\<lambda>c. c = Reading) (threads s)"

fun admitted :: "nat \<Rightarrow> sys \<Rightarrow> rw_event list \<Rightarrow> nat option" where
  "admitted w s [] = (if writer_waiting (priority (rw s)) (threads s ! w) then Some 0 else None)"
| "admitted w s (e # es) =
     (if writer_waiting (priority (rw s)) (threads s ! w) then
        (case rw_step s e of
           None \<Rightarrow> None
         | Some s' \<Rightarrow>
             (case admitted w s' es of
                None \<Rightarrow> None
              | Some k \<Rightarrow> Some (k + (if readers_inside s < readers_inside s' then 1 else 0))))
      else None)"

text \<open>Some steps of one thread in a row; a piece of memory for \<^verbatim>\<open>rwlock_new\<close>.\<close>

definition steps :: "nat \<Rightarrow> nat \<Rightarrow> rw_event list" where
  "steps t k = replicate k (Step t)"

definition zero_mem :: pstate where
  "zero_mem = \<lparr>n = 0, readers_waiting = 0, readers_passed = 0, writers_waiting = 0, writer_holding = False\<rparr>"


section \<open>The registry scan\<close>

text \<open>
  The scan returns the first entry that is unused or carries the URI, and \<open>None\<close>
  exactly when no entry is either.
\<close>

lemma find_from_None:
  "find_file_lock_from i fl u = None \<longleftrightarrow>
   (\<forall>k. i \<le> k \<and> k < length fl \<longrightarrow> \<not> slot_free_or_match (fl ! k) u)"
proof (induction i fl u rule: find_file_lock_from.induct)
  case (1 i fl u)
  show ?case
  proof (cases "i < length fl")
    case False
    then show ?thesis by (auto simp add: find_file_lock_from.simps[of i fl u])
  next
    case True
    show ?thesis
    proof (cases "slot_free_or_match (fl ! i) u")
      case True
      with \<open>i < length fl\<close> show ?thesis
        by (auto simp: find_file_lock_from.simps[of i fl u] slot_free_or_match_def split: option.splits)
    next
      case False
      then obtain name where nm: "filename (fl ! i) = Some name" "name \<noteq> u"
        by (auto simp: slot_free_or_match_def)
      have "find_file_lock_from i fl u = find_file_lock_from (i + 1) fl u"
        using \<open>i < length fl\<close> nm by (simp add: find_file_lock_from.simps[of i fl u])
      moreover have "(\<forall>k. i \<le> k \<and> k < length fl \<longrightarrow> \<not> slot_free_or_match (fl ! k) u) \<longleftrightarrow>
                     (\<forall>k. i + 1 \<le> k \<and> k < length fl \<longrightarrow> \<not> slot_free_or_match (fl ! k) u)"
        using False by (metis Suc_eq_plus1 Suc_leI le_eq_less_or_eq le_trans less_add_one less_or_eq_imp_le)
      ultimately show ?thesis using 1[OF \<open>i < length fl\<close> nm(1) nm(2)] by simp
    qed
  qed
qed

lemma find_from_Some:
  "find_file_lock_from i fl u = Some (j, fl') \<longleftrightarrow>
   (i \<le> j \<and> j < length fl \<and> (\<forall>k. i \<le> k \<and> k < j \<longrightarrow> \<not> slot_free_or_match (fl ! k) u) \<and>
    slot_free_or_match (fl ! j) u \<and> fl' = fl[j := slot_take (fl ! j) u])"
proof (induction i fl u rule: find_file_lock_from.induct)
  case (1 i fl u)
  show ?case
  proof (cases "i < length fl")
    case False
    then show ?thesis by (auto simp add: find_file_lock_from.simps[of i fl u])
  next
    case True
    show ?thesis
    proof (cases "slot_free_or_match (fl ! i) u")
      case sfm: True
      have "find_file_lock_from i fl u = Some (i, fl[i := slot_take (fl ! i) u])"
        using sfm True
        by (auto simp: find_file_lock_from.simps[of i fl u] slot_free_or_match_def slot_take_def
                 split: option.splits)
      moreover have "j = i" if "i \<le> j" "\<forall>k. i \<le> k \<and> k < j \<longrightarrow> \<not> slot_free_or_match (fl ! k) u"
        using that sfm by (metis le_neq_implies_less order_refl)
      ultimately show ?thesis using True sfm by auto
    next
      case False
      then obtain name where nm: "filename (fl ! i) = Some name" "name \<noteq> u"
        by (auto simp: slot_free_or_match_def)
      have eq: "find_file_lock_from i fl u = find_file_lock_from (i + 1) fl u"
        using \<open>i < length fl\<close> nm by (simp add: find_file_lock_from.simps[of i fl u])
      have "(i \<le> j \<and> (\<forall>k. i \<le> k \<and> k < j \<longrightarrow> \<not> slot_free_or_match (fl ! k) u) \<and> slot_free_or_match (fl ! j) u) \<longleftrightarrow>
            (i + 1 \<le> j \<and> (\<forall>k. i + 1 \<le> k \<and> k < j \<longrightarrow> \<not> slot_free_or_match (fl ! k) u) \<and> slot_free_or_match (fl ! j) u)"
        using False
        by (metis Suc_eq_plus1 Suc_leI le_eq_less_or_eq le_trans less_add_one less_or_eq_imp_le)
      then show ?thesis using 1[OF \<open>i < length fl\<close> nm(1) nm(2)] eq by auto
    qed
  qed
qed



subsection \<open>Interning one URI\<close>

text \<open>
  Claim C9.  For every URI \<open>s\<close>: when the first \<^verbatim>\<open>find_file_lock\<close> for \<open>s\<close> claims
  an unused entry \<open>i\<close>, the second call for \<open>s\<close> returns the same entry \<open>i\<close> and
  raises its \<^verbatim>\<open>users\<close> count from 1 to 2; the first \<^verbatim>\<open>release_file_lock\<close> lowers it
  to 1 and keeps the name, the second lowers it to 0 and clears the name, every other
  entry being as before the first call; and a \<^verbatim>\<open>find_file_lock\<close> for any URI \<open>t\<close>
  that no earlier entry carries then claims entry \<open>i\<close> for \<open>t\<close>.
\<close>

theorem registry_interning:
  assumes "find_file_lock fl s = Some (i, fl1)" and "filename (fl ! i) = None"
  shows "find_file_lock fl1 s = Some (i, fl1[i := (fl1 ! i)\<lparr>users := 2\<rparr>]) \<and>
         users (fl1 ! i) = 1 \<and> filename (fl1 ! i) = Some s \<and>
         (let fl2 = fl1[i := (fl1 ! i)\<lparr>users := 2\<rparr>];
              fl3 = release_file_lock fl2 i;
              fl4 = release_file_lock fl3 i
          in users (fl3 ! i) = 1 \<and> filename (fl3 ! i) = Some s \<and>
             users (fl4 ! i) = 0 \<and> filename (fl4 ! i) = None \<and>
             fl4 = fl[i := (fl ! i)\<lparr>users := 0\<rparr>] \<and>
             (\<forall>t. (\<forall>k<i. filename (fl ! k) \<noteq> Some t) \<longrightarrow>
                  find_file_lock fl4 t = Some (i, fl4[i := (fl4 ! i)\<lparr>filename := Some t, users := 1\<rparr>])))"
proof -
  from assms have i: "i < length fl"
    and before: "\<And>k. k < i \<Longrightarrow> \<not> slot_free_or_match (fl ! k) s"
    and fl1: "fl1 = fl[i := (fl ! i)\<lparr>filename := Some s, users := 1\<rparr>]"
    by (auto simp: find_file_lock_def find_from_Some slot_take_def)
  have second: "find_file_lock fl1 s = Some (i, fl1[i := (fl1 ! i)\<lparr>users := 2\<rparr>])"
    unfolding find_file_lock_def find_from_Some
    using i before by (auto simp: fl1 slot_free_or_match_def slot_take_def)
  have rel: "release_file_lock (release_file_lock (fl1[i := (fl1 ! i)\<lparr>users := 2\<rparr>]) i) i
             = fl[i := (fl ! i)\<lparr>users := 0\<rparr>]"
  proof -
    have "(fl ! i)\<lparr>users := 0, filename := None\<rparr> = (fl ! i)\<lparr>users := 0\<rparr>"
      using assms(2) by (cases "fl ! i") simp
    then show ?thesis
      using i by (simp add: fl1 release_file_lock_def Let_def)
  qed
  have third: "find_file_lock (fl[i := (fl ! i)\<lparr>users := 0\<rparr>]) t
       = Some (i, (fl[i := (fl ! i)\<lparr>users := 0\<rparr>])[i := ((fl[i := (fl ! i)\<lparr>users := 0\<rparr>]) ! i)\<lparr>filename := Some t, users := 1\<rparr>])"
    if "\<forall>k<i. filename (fl ! k) \<noteq> Some t" for t
    unfolding find_file_lock_def find_from_Some
    using i before that assms(2) by (auto simp: slot_free_or_match_def slot_take_def)
  show ?thesis
    using second i assms(2) third
    by (simp add: Let_def rel) (simp add: fl1 release_file_lock_def)
qed

theorem registry_interning_witness:
  "find_file_lock (init_file_locks [(), (), (), ()]) ''foo''
     = Some (0, [\<lparr>lock = (), filename = Some ''foo'', users = 1\<rparr>, \<lparr>lock = (), filename = None, users = 0\<rparr>,
                 \<lparr>lock = (), filename = None, users = 0\<rparr>, \<lparr>lock = (), filename = None, users = 0\<rparr>]) \<and>
   find_file_lock [\<lparr>lock = (), filename = Some ''foo'', users = 1\<rparr>, \<lparr>lock = (), filename = None, users = 0\<rparr>,
                 \<lparr>lock = (), filename = None, users = 0\<rparr>, \<lparr>lock = (), filename = None, users = 0\<rparr>] ''foo''
     = Some (0, [\<lparr>lock = (), filename = Some ''foo'', users = 2\<rparr>, \<lparr>lock = (), filename = None, users = 0\<rparr>,
                 \<lparr>lock = (), filename = None, users = 0\<rparr>, \<lparr>lock = (), filename = None, users = 0\<rparr>]) \<and>
   release_file_lock (release_file_lock
      [\<lparr>lock = (), filename = Some ''foo'', users = 2\<rparr>, \<lparr>lock = (), filename = None, users = 0\<rparr>,
       \<lparr>lock = (), filename = None, users = 0\<rparr>, \<lparr>lock = (), filename = None, users = 0\<rparr>] 0) 0
     = init_file_locks [(), (), (), ()] \<and>
   find_file_lock (init_file_locks [(), (), (), ()]) ''bar''
     = Some (0, [\<lparr>lock = (), filename = Some ''bar'', users = 1\<rparr>, \<lparr>lock = (), filename = None, users = 0\<rparr>,
                 \<lparr>lock = (), filename = None, users = 0\<rparr>, \<lparr>lock = (), filename = None, users = 0\<rparr>])"
proof -
  have first: "find_file_lock (init_file_locks [(), (), (), ()]) ''foo''
     = Some (0, [\<lparr>lock = (), filename = Some ''foo'', users = 1\<rparr>, \<lparr>lock = (), filename = None, users = 0\<rparr>,
                 \<lparr>lock = (), filename = None, users = 0\<rparr>, \<lparr>lock = (), filename = None, users = 0\<rparr>])"
    by code_simp
  have free: "filename (init_file_locks [(), (), (), ()] ! 0) = None"
    by (simp add: init_file_locks_def)
  show ?thesis
    using first registry_interning[OF first free]
    by (simp add: Let_def init_file_locks_def release_file_lock_def)
qed


subsection \<open>The scan never falls through\<close>

text \<open>
  Invariant of the workers' use of the registry: the \<^verbatim>\<open>users\<close> count of an entry is
  the number of workers that hold it, and an entry has no name exactly when nobody
  holds it.
\<close>

lemma count_list_update:
  "w < length xs \<Longrightarrow>
   count_list (xs[w := x]) y + (if xs ! w = y then 1 else 0) = count_list xs y + (if x = y then 1 else 0)"
proof (induction xs arbitrary: w)
  case Nil
  then show ?case by simp
next
  case (Cons a xs)
  show ?case
  proof (cases w)
    case 0
    then show ?thesis by simp
  next
    case (Suc m)
    with Cons.prems have "m < length xs" by simp
    from Cons.IH[OF this] show ?thesis using Suc by (auto split: if_splits)
  qed
qed

lemma count_list_pos_nth: "w < length xs \<Longrightarrow> xs ! w = y \<Longrightarrow> 0 < count_list xs y"
  by (metis count_list_0_iff nth_mem not_gr_zero)

lemma reg_inv_init: "reg_inv (length ls) (init_file_locks ls, replicate (length ls) None)"
  by (auto simp: reg_inv_def init_file_locks_def count_list_0_iff)

lemma reg_inv_step:
  assumes "reg_inv T s" "reg_step s e = Some s'"
  shows "reg_inv T s'"
proof -
  obtain fl held where s: "s = (fl, held)" by (cases s)
  from assms(1) s have len: "length fl = T" "length held = T"
    and cnt: "\<And>i. i < T \<Longrightarrow> users (fl ! i) = int (count_list held (Some i))"
    and fr: "\<And>i. i < T \<Longrightarrow> (filename (fl ! i) = None \<longleftrightarrow> count_list held (Some i) = 0)"
    and rng: "\<And>w i. w < T \<Longrightarrow> held ! w = Some i \<Longrightarrow> i < T"
    by (auto simp: reg_inv_def)
  show ?thesis
  proof (cases e)
    case (Acquire w u)
    with assms(2) s obtain j fl' where w: "w < T" "held ! w = None"
      and f: "find_file_lock fl u = Some (j, fl')" and s': "s' = (fl', held[w := Some j])"
      using len by (auto split: if_splits option.splits)
    from f have j: "j < T" and sfm: "slot_free_or_match (fl ! j) u"
      and fl': "fl' = fl[j := slot_take (fl ! j) u]"
      using len by (auto simp: find_file_lock_def find_from_Some)
    have c: "count_list (held[w := Some j]) (Some i) = count_list held (Some i) + (if i = j then 1 else 0)" for i
      using count_list_update[of w held "Some j" "Some i"] w len by auto
    show ?thesis
      unfolding s' reg_inv_def
      using len j w sfm cnt fr rng
      by (auto simp: fl' c nth_list_update slot_take_def slot_free_or_match_def split: option.splits)
  next
    case (Release w)
    with assms(2) s obtain j where w: "w < T" "held ! w = Some j"
      and s': "s' = (release_file_lock fl j, held[w := None])"
      using len by (auto split: if_splits option.splits)
    have j: "j < T" using rng w by blast
    have c: "count_list (held[w := None]) (Some i) + (if i = j then 1 else 0) = count_list held (Some i)" for i
      using count_list_update[of w held "None" "Some i"] w len by auto
    have pos: "0 < count_list held (Some j)" using count_list_pos_nth w len by metis
    have cn: "count_list (held[w := None]) (Some j) = count_list held (Some j) - 1"
      using c[of j] by simp
    have cj: "int (count_list (held[w := None]) (Some j)) = int (count_list held (Some j)) - 1"
      using cn pos by simp
    have ci: "i \<noteq> j \<Longrightarrow> count_list (held[w := None]) (Some i) = count_list held (Some i)" for i
      using c[of i] by simp
    show ?thesis
      unfolding s' reg_inv_def release_file_lock_def Let_def
      using len j w cnt fr rng pos
      by (auto simp: cj cn ci nth_list_update)
  qed
qed

lemma reg_inv_run: "reg_inv T s \<Longrightarrow> reg_run s evs = Some s' \<Longrightarrow> reg_inv T s'"
proof (induction evs arbitrary: s)
  case Nil
  then show ?case by simp
next
  case (Cons e evs)
  then show ?case by (auto split: option.splits dest: reg_inv_step)
qed

lemma idle_worker_free_slot:
  assumes "reg_inv T (fl, held)" "w < T" "held ! w = None"
  shows "\<exists>i<T. filename (fl ! i) = None"
proof -
  from assms(1) have len: "length fl = T" "length held = T"
    and fr: "\<And>i. i < T \<Longrightarrow> (filename (fl ! i) = None \<longleftrightarrow> count_list held (Some i) = 0)"
    by (auto simp: reg_inv_def)
  let ?S = "{i. Some i \<in> set held}"
  let ?held' = "take w held @ drop (Suc w) held"
  have "set held = insert (held ! w) (set ?held')"
    using assms(2) len by (metis id_take_nth_drop list.simps(15) set_append Un_insert_right)
  then have sub: "Some ` ?S \<subseteq> set ?held'" using assms(3) by auto
  then have "card (Some ` ?S) \<le> card (set ?held')" by (simp add: card_mono)
  also have "\<dots> \<le> length ?held'" by (rule card_length)
  also have "\<dots> = T - 1" using assms(2) len by auto
  finally have "card ?S \<le> T - 1" by (simp add: card_image)
  then have lt: "card ?S < T" using assms(2) by linarith
  have "finite (Some ` ?S)" using sub by (rule finite_subset) simp
  then have fin: "finite ?S" by (rule finite_imageD) simp
  have "\<not> {..<T} \<subseteq> ?S"
  proof
    assume "{..<T} \<subseteq> ?S"
    then have "card {..<T} \<le> card ?S" using fin by (rule card_mono[rotated])
    then show False using lt by simp
  qed
  then obtain i where "i < T" "Some i \<notin> set held" by auto
  then show ?thesis using fr by (auto simp: count_list_0_iff)
qed


text \<open>
  Claim C4.  For every registry of \<open>T\<close> entries as \<^verbatim>\<open>main\<close> creates it, every sequence
  of acquire and release steps in which each of the \<open>T\<close> workers holds at most one
  entry at a time, and every URI: when a worker that holds no entry calls
  \<^verbatim>\<open>find_file_lock\<close>, the call returns an entry of the registry, never \<^verbatim>\<open>NULL\<close>.
\<close>

theorem find_file_lock_never_null:
  assumes "reg_run (init_file_locks ls, replicate (length ls) None) evs = Some (fl, held)"
    and "w < length ls" and "held ! w = None"
  shows "\<exists>i fl'. find_file_lock fl URI = Some (i, fl') \<and> i < length ls \<and> length fl = length ls"
proof -
  have inv: "reg_inv (length ls) (fl, held)"
    using reg_inv_run[OF reg_inv_init assms(1)] .
  then obtain i where "i < length ls" "filename (fl ! i) = None"
    using idle_worker_free_slot assms(2,3) by blast
  moreover have len: "length fl = length ls" using inv by (simp add: reg_inv_def)
  ultimately have "find_file_lock fl URI \<noteq> None"
    by (auto simp: find_file_lock_def find_from_None slot_free_or_match_def)
  then obtain j fl' where "find_file_lock fl URI = Some (j, fl')" by auto
  moreover from this have "j < length fl" by (simp add: find_file_lock_def find_from_Some)
  ultimately show ?thesis using len by auto
qed


theorem find_file_lock_never_null_witness:
  "reg_run (init_file_locks [(), ()], replicate (length [(), ()]) None)
      [Acquire 0 ''a'', Acquire 1 ''b'', Release 0]
     = Some ([\<lparr>lock = (), filename = None, users = 0\<rparr>,
              \<lparr>lock = (), filename = Some ''b'', users = 1\<rparr>], [None, Some 1]) \<and>
   (0::nat) < length [(), ()] \<and> [None, Some (1::nat)] ! 0 = None \<and>
   (\<exists>i fl'. find_file_lock [\<lparr>lock = (), filename = None, users = 0\<rparr>,
              \<lparr>lock = (), filename = Some ''b'', users = 1\<rparr>] ''c'' = Some (i, fl') \<and> i < length [(), ()]
        \<and> length [\<lparr>lock = (), filename = None, users = 0\<rparr>,
              \<lparr>lock = (), filename = Some ''b'', users = 1\<rparr>] = length [(), ()])"
proof -
  have run: "reg_run (init_file_locks [(), ()], replicate (length [(), ()]) None)
      [Acquire 0 ''a'', Acquire 1 ''b'', Release 0]
     = Some ([\<lparr>lock = (), filename = None, users = 0\<rparr>,
              \<lparr>lock = (), filename = Some ''b'', users = 1\<rparr>], [None, Some 1])"
    by code_simp
  show ?thesis
    using run find_file_lock_never_null[OF run, of 0 "''c''"] by simp
qed


section \<open>Content-Length\<close>

text \<open>
  \<^verbatim>\<open>_str_to_long\<close> returns \<^verbatim>\<open>-1\<close> on a string with a character that is not a digit,
  and the decimal value modulo \<open>2 ^ 64\<close> on a string of digits.
\<close>

lemma str_to_long_loop_bad:
  "\<not> list_all is_digit s \<Longrightarrow> str_to_long_loop res s = - 1"
proof (induction s arbitrary: res)
  case Nil
  then show ?case by simp
next
  case (Cons c cs)
  show ?case
  proof (cases "is_digit c")
    case True
    with Cons.prems have "\<not> list_all is_digit cs" by simp
    then have "\<And>r. str_to_long_loop r cs = - 1" by (rule Cons.IH)
    then show ?thesis by simp
  next
    case False
    then show ?thesis by (simp add: is_digit_def)
  qed
qed

lemma str_to_long_loop_digits:
  "list_all is_digit s \<Longrightarrow>
   str_to_long_loop (word_of_nat a) s = word_of_nat (foldl (\<lambda>a c. 10 * a + digit_val c) a s)"
proof (induction s arbitrary: a)
  case Nil
  then show ?case by simp
next
  case (Cons c cs)
  then have d: "is_digit c" and ds: "list_all is_digit cs" by simp_all
  have step: "str_to_long_loop (word_of_nat a) (c # cs)
              = str_to_long_loop (word_of_nat (10 * a + digit_val c)) cs"
    using d by (auto simp: is_digit_def digit_val_def mult.commute)
  show ?case using Cons.IH[OF ds, of "10 * a + digit_val c"] by (simp only: step foldl_Cons)
qed

lemma str_to_long_digits:
  "list_all is_digit s \<Longrightarrow> str_to_long s = word_of_nat (decimal_value s)"
  using str_to_long_loop_digits[of s 0] by (simp add: str_to_long_def decimal_value_def)

lemma sint_small: "v < 2 ^ 63 \<Longrightarrow> sint (word_of_nat v :: 64 word) = int v"
  by (simp add: signed_of_nat signed_take_bit_int_eq_self)

lemma content_length_missing:
  "req_get_header_value req ''Content-Length'' = None \<Longrightarrow> req_get_content_length req = - 1"
  by (simp add: req_get_content_length_def)

lemma content_length_not_digits:
  "req_get_header_value req ''Content-Length'' = Some s \<Longrightarrow> \<not> list_all is_digit s \<Longrightarrow>
   req_get_content_length req = - 2"
  by (simp add: req_get_content_length_def str_to_long_def str_to_long_loop_bad)

lemma content_length_digits:
  "req_get_header_value req ''Content-Length'' = Some s \<Longrightarrow> list_all is_digit s \<Longrightarrow>
   decimal_value s < 2 ^ 63 \<Longrightarrow>
   req_get_content_length req = word_of_nat (decimal_value s) \<and>
   \<not> sint (req_get_content_length req) < 0"
  by (simp add: req_get_content_length_def str_to_long_digits sint_small Let_def)

lemma put_body_status: "fst (put_body os req cl fd res) = RESPONSE_UNSENT res"
  by (simp add: put_body_def Let_def)


section \<open>PUT\<close>

text \<open>
  What \<^verbatim>\<open>handle_put\<close> does with a \<^verbatim>\<open>Content-Length\<close> that \<^verbatim>\<open>ssize_t\<close> can hold.  A
  missing header, or a value with a character that is not a decimal digit, gives 400.
  A string of decimal digits whose value is below \<open>2 ^ 63\<close> gives: 200 when opening
  the URI write-only with truncation succeeds; 201 when the open fails with
  \<^verbatim>\<open>ENOENT\<close>, the next call being \<^verbatim>\<open>creat\<close> of the URI with mode \<^verbatim>\<open>0666\<close>, whatever
  that call returns; 403 for \<^verbatim>\<open>EISDIR\<close>, \<^verbatim>\<open>EACCES\<close>, \<^verbatim>\<open>ENAMETOOLONG\<close>, \<^verbatim>\<open>EPERM\<close>,
  \<^verbatim>\<open>EROFS\<close>; 500 for any other error.
\<close>

lemma handle_put_status:
  "((req_get_header_value req ''Content-Length'' = None \<or>
     (\<exists>s. req_get_header_value req ''Content-Length'' = Some s \<and> \<not> list_all is_digit s))
      \<longrightarrow> fst (handle_put os req) = RESPONSE_UNSENT 400) \<and>
   ((\<exists>s. req_get_header_value req ''Content-Length'' = Some s \<and> list_all is_digit s \<and>
         decimal_value s < 2 ^ 63) \<longrightarrow>
      (case sys_open os (uri req) [O_WRONLY, O_TRUNC] of
         Inr fd \<Rightarrow> fst (handle_put os req) = RESPONSE_UNSENT 200
       | Inl e \<Rightarrow>
           if e = ENOENT then
             fst (handle_put os req) = RESPONSE_UNSENT 201 \<and>
             take 2 (snd (handle_put os req)) = [Open (uri req) [O_WRONLY, O_TRUNC], Creat (uri req) 0x1B6]
           else if e = EISDIR \<or> e = EACCES \<or> e = ENAMETOOLONG \<or> e = EPERM \<or> e = EROFS then
             fst (handle_put os req) = RESPONSE_UNSENT 403
           else fst (handle_put os req) = RESPONSE_UNSENT 500))"
proof (intro conjI impI)
  assume "req_get_header_value req ''Content-Length'' = None \<or>
     (\<exists>s. req_get_header_value req ''Content-Length'' = Some s \<and> \<not> list_all is_digit s)"
  then have "req_get_content_length req = - 1 \<or> req_get_content_length req = - 2"
    using content_length_missing content_length_not_digits by blast
  then have "sint (req_get_content_length req) < 0" by auto
  then show "fst (handle_put os req) = RESPONSE_UNSENT 400"
    by (simp add: handle_put_def)
next
  assume "\<exists>s. req_get_header_value req ''Content-Length'' = Some s \<and> list_all is_digit s \<and>
         decimal_value s < 2 ^ 63"
  then have nn: "\<not> sint (req_get_content_length req) < 0"
    using content_length_digits by blast
  show "case sys_open os (uri req) [O_WRONLY, O_TRUNC] of
         Inr fd \<Rightarrow> fst (handle_put os req) = RESPONSE_UNSENT 200
       | Inl e \<Rightarrow>
           if e = ENOENT then
             fst (handle_put os req) = RESPONSE_UNSENT 201 \<and>
             take 2 (snd (handle_put os req)) = [Open (uri req) [O_WRONLY, O_TRUNC], Creat (uri req) 0x1B6]
           else if e = EISDIR \<or> e = EACCES \<or> e = ENAMETOOLONG \<or> e = EPERM \<or> e = EROFS then
             fst (handle_put os req) = RESPONSE_UNSENT 403
           else fst (handle_put os req) = RESPONSE_UNSENT 500"
    using nn by (simp add: handle_put_def Let_def put_body_status split: sum.splits)
qed

lemma handle_put_status_examples:
  "fst (handle_put (os_regular_file 0) put_request_no_length) = RESPONSE_UNSENT 400 \<and>
   fst (handle_put (os_regular_file 0) (put_request ''-5'' ''hello'')) = RESPONSE_UNSENT 400 \<and>
   fst (handle_put (os_regular_file 0) (put_request ''5'' ''hello'')) = RESPONSE_UNSENT 200 \<and>
   fst (handle_put (os_open_fails ENOENT) (put_request ''5'' ''hello'')) = RESPONSE_UNSENT 201 \<and>
   take 2 (snd (handle_put (os_open_fails ENOENT) (put_request ''5'' ''hello'')))
     = [Open ''a'' [O_WRONLY, O_TRUNC], Creat ''a'' 0x1B6] \<and>
   fst (handle_put (os_open_fails EISDIR) (put_request ''5'' ''hello'')) = RESPONSE_UNSENT 403 \<and>
   fst (handle_put (os_open_fails (EOTHER 24)) (put_request ''5'' ''hello'')) = RESPONSE_UNSENT 500"
proof -
  let ?rq = "put_request ''5'' ''hello''"
  have none: "req_get_header_value put_request_no_length ''Content-Length'' = None"
    by code_simp
  have bad: "req_get_header_value (put_request ''-5'' ''hello'') ''Content-Length'' = Some ''-5''"
    "\<not> list_all is_digit ''-5''"
    by code_simp+
  have good: "req_get_header_value ?rq ''Content-Length'' = Some ''5''"
    "list_all is_digit ''5''"
    by code_simp+
  have small: "decimal_value ''5'' < 2 ^ 63"
    by (simp add: decimal_value_def digit_val_def)
  have u: "uri ?rq = ''a''" by (simp add: put_request_def)
  have o: "\<And>e. sys_open (os_open_fails e) ''a'' [O_WRONLY, O_TRUNC] = Inl e"
    by (simp add: os_open_fails_def)
  have orf: "sys_open (os_regular_file 0) ''a'' [O_WRONLY, O_TRUNC] = Inr 3"
    by (simp add: os_regular_file_def)
  have c1: "fst (handle_put (os_regular_file 0) put_request_no_length) = RESPONSE_UNSENT 400"
    using handle_put_status[of put_request_no_length "os_regular_file 0"] none by simp
  have c2: "fst (handle_put (os_regular_file 0) (put_request ''-5'' ''hello'')) = RESPONSE_UNSENT 400"
    using handle_put_status[of "put_request ''-5'' ''hello''" "os_regular_file 0"] bad by simp
  have c3: "fst (handle_put (os_regular_file 0) ?rq) = RESPONSE_UNSENT 200"
    using handle_put_status[of ?rq "os_regular_file 0"] good small by (simp add: u orf)
  have c4: "fst (handle_put (os_open_fails ENOENT) ?rq) = RESPONSE_UNSENT 201 \<and>
     take 2 (snd (handle_put (os_open_fails ENOENT) ?rq)) = [Open ''a'' [O_WRONLY, O_TRUNC], Creat ''a'' 0x1B6]"
    using handle_put_status[of ?rq "os_open_fails ENOENT"] good small by (simp add: u o)
  have c5: "fst (handle_put (os_open_fails EISDIR) ?rq) = RESPONSE_UNSENT 403"
    using handle_put_status[of ?rq "os_open_fails EISDIR"] good small by (simp add: u o)
  have c6: "fst (handle_put (os_open_fails (EOTHER 24)) ?rq) = RESPONSE_UNSENT 500"
    using handle_put_status[of ?rq "os_open_fails (EOTHER 24)"] good small by (simp add: u o)
  show ?thesis using c1 c2 c3 c4 c5 c6 by blast
qed


text \<open>
  The result of \<^verbatim>\<open>creat\<close> is not looked at.  When the file is not there and cannot be
  made (\<^verbatim>\<open>open\<close> fails with \<^verbatim>\<open>ENOENT\<close>, \<^verbatim>\<open>creat\<close> with \<^verbatim>\<open>EACCES\<close>), the handler goes on
  with descriptor \<^verbatim>\<open>-1\<close> and answers 201, no file having been created.
\<close>

lemma handle_put_creat_fails_201:
  "sys_open (os_creat_fails EACCES) (uri (put_request ''5'' ''hello'')) [O_WRONLY, O_TRUNC] = Inl ENOENT \<and>
   sys_creat (os_creat_fails EACCES) (uri (put_request ''5'' ''hello'')) 0x1B6 = Inl EACCES \<and>
   handle_put (os_creat_fails EACCES) (put_request ''5'' ''hello'')
     = (RESPONSE_UNSENT 201,
        [Open ''a'' [O_WRONLY, O_TRUNC], Creat ''a'' 0x1B6,
         Write_n_bytes (- 1) ''hello'', Pass_n_bytes 5 (- 1) 6, Close (- 1)])"
proof -
  let ?rq = "put_request ''5'' ''hello''"
  have h: "req_get_header_value ?rq ''Content-Length'' = Some ''5''" by code_simp
  have cl: "req_get_content_length ?rq = 5"
    by (simp add: req_get_content_length_def h Let_def str_to_long_def)
  have rq: "uri ?rq = ''a''" "body ?rq = ''hello''" "sockfd ?rq = 5"
    by (simp_all add: put_request_def)
  have b: "put_body (os_creat_fails EACCES) ?rq 5 (- 1) 201
           = (RESPONSE_UNSENT 201,
              [Write_n_bytes (- 1) ''hello'', Pass_n_bytes 5 (- 1) 6, Close (- 1)])"
    by (simp add: put_body_def rq os_creat_fails_def Let_def)
  have o: "sys_open (os_creat_fails EACCES) ''a'' [O_WRONLY, O_TRUNC] = Inl ENOENT"
    "sys_creat (os_creat_fails EACCES) ''a'' 0x1B6 = Inl EACCES"
    by (simp_all add: os_creat_fails_def)
  show ?thesis
    by (simp add: handle_put_def cl rq b o Let_def)
qed


text \<open>
  Claim C5 fails on the code.  \<^verbatim>\<open>Content-Length: 9223372036854775808\<close> is a
  non-negative decimal integer, and the target can be opened write-only with
  truncation, so the claim gives status 200.  The value is \<open>2 ^ 63\<close>, one more than
  \<^verbatim>\<open>ssize_t\<close> can hold: \<^verbatim>\<open>_str_to_long\<close> multiplies and adds without a test, the
  result is negative, \<^verbatim>\<open>req_get_content_length\<close> reports \<^verbatim>\<open>-2\<close> and \<^verbatim>\<open>handle_put\<close>
  returns 400 without opening anything.
\<close>

theorem handle_put_overflow_400:
  "req_get_header_value (put_request ''9223372036854775808'' ''hello'') ''Content-Length''
     = Some ''9223372036854775808'' \<and>
   list_all is_digit ''9223372036854775808'' \<and>
   decimal_value ''9223372036854775808'' = 2 ^ 63 \<and>
   sys_open (os_regular_file 0) (uri (put_request ''9223372036854775808'' ''hello'')) [O_WRONLY, O_TRUNC]
     = Inr 3 \<and>
   req_get_content_length (put_request ''9223372036854775808'' ''hello'') = - 2 \<and>
   handle_put (os_regular_file 0) (put_request ''9223372036854775808'' ''hello'')
     = (RESPONSE_UNSENT 400, [])"
proof -
  let ?rq = "put_request ''9223372036854775808'' ''hello''"
  have h: "req_get_header_value ?rq ''Content-Length'' = Some ''9223372036854775808''"
    by code_simp
  have d: "list_all is_digit ''9223372036854775808''" by (simp add: is_digit_def)
  have v: "decimal_value ''9223372036854775808'' = 2 ^ 63"
    by (simp add: decimal_value_def digit_val_def)
  have o: "sys_open (os_regular_file 0) (uri ?rq) [O_WRONLY, O_TRUNC] = Inr 3"
    by (simp add: os_regular_file_def)
  have "sint (str_to_long ''9223372036854775808'') < 0" by (simp add: str_to_long_def)
  then have cl: "req_get_content_length ?rq = - 2"
    by (simp add: req_get_content_length_def h Let_def)
  then have "handle_put (os_regular_file 0) ?rq = (RESPONSE_UNSENT 400, [])"
    by (simp add: handle_put_def)
  with h d v o cl show ?thesis by blast
qed


text \<open>
  Claim C10.  For every PUT request whose \<^verbatim>\<open>Content-Length\<close> header is missing or
  has a character that is not a decimal digit, \<^verbatim>\<open>handle_put\<close> returns status 400
  having made no system call at all: no open, create, truncate or write reaches the
  target, which is therefore as it was.
\<close>

theorem handle_put_rejects_first:
  assumes "req_get_header_value req ''Content-Length'' = None \<or>
     (\<exists>s. req_get_header_value req ''Content-Length'' = Some s \<and> \<not> list_all is_digit s)"
  shows "handle_put os req = (RESPONSE_UNSENT 400, [])"
proof -
  from assms have "req_get_content_length req = - 1 \<or> req_get_content_length req = - 2"
    using content_length_missing content_length_not_digits by blast
  then have "sint (req_get_content_length req) < 0" by auto
  then show ?thesis by (simp add: handle_put_def)
qed

theorem handle_put_rejects_first_witness:
  "handle_put (os_regular_file 0) put_request_no_length = (RESPONSE_UNSENT 400, []) \<and>
   handle_put (os_regular_file 0) (put_request ''12a'' ''hello'') = (RESPONSE_UNSENT 400, [])"
proof -
  have none: "req_get_header_value put_request_no_length ''Content-Length'' = None"
    by code_simp
  have bad: "req_get_header_value (put_request ''12a'' ''hello'') ''Content-Length'' = Some ''12a''
             \<and> \<not> list_all is_digit ''12a''"
    by code_simp
  show ?thesis
    using handle_put_rejects_first[of put_request_no_length "os_regular_file 0"]
      handle_put_rejects_first[of "put_request ''12a'' ''hello''" "os_regular_file 0"]
      none bad
    by simp
qed



section \<open>GET\<close>

text \<open>
  Claim C6, as stated, fails.  The open succeeds and \<^verbatim>\<open>fstat\<close> of the descriptor fails
  (here with \<^verbatim>\<open>EIO\<close>, errno 5): the handler closes the descriptor and returns 500,
  unsent, and the worker writes the canned reply.  The claim has 403 for a directory
  and a streamed 200 for everything else that could be opened.
\<close>

theorem handle_get_fstat_fails_counterexample:
  "sys_open (os_fstat_fails (EOTHER 5)) (uri (get_request (CHR ''1'') (CHR ''1''))) [O_RDONLY] = Inr 3 \<and>
   sys_fstat (os_fstat_fails (EOTHER 5)) 3 = Inl (EOTHER 5) \<and>
   handle_get (os_fstat_fails (EOTHER 5)) (get_request (CHR ''1'') (CHR ''1''))
     = (RESPONSE_UNSENT 500, [Open ''a'' [O_RDONLY], Fstat 3, Close 3]) \<and>
   worker_reply 5 (fst (handle_get (os_fstat_fails (EOTHER 5)) (get_request (CHR ''1'') (CHR ''1''))))
     = respond 5 500 \<and>
   respond 5 500 \<noteq> []"
proof -
  let ?rq = "get_request (CHR ''1'') (CHR ''1'')"
  have rq: "uri ?rq = ''a''" by (simp add: get_request_def)
  have g: "handle_get (os_fstat_fails (EOTHER 5)) ?rq
           = (RESPONSE_UNSENT 500, [Open ''a'' [O_RDONLY], Fstat 3, Close 3])"
    by (simp add: handle_get_def os_fstat_fails_def rq)
  have w: "worker_reply 5 (RESPONSE_UNSENT 500) = respond 5 500"
    by (simp add: worker_reply_def RESPONSE_UNSENT_def)
  have r: "respond 5 500 \<noteq> []" by (simp add: respond_def Let_def)
  show ?thesis using g w r by (simp add: os_fstat_fails_def rq)
qed


text \<open>
  Claim C6, amended.  For every GET request: if opening the URI read-only fails, the
  status is 403 for \<^verbatim>\<open>EACCES\<close>, \<^verbatim>\<open>ENAMETOOLONG\<close>, \<^verbatim>\<open>EPERM\<close> and \<^verbatim>\<open>EROFS\<close>, 404 for
  \<^verbatim>\<open>ENOENT\<close> and 500 otherwise.  If the open succeeds and \<^verbatim>\<open>fstat\<close> of the descriptor
  fails, the handler closes the descriptor, writes nothing, and the status is 403 for
  \<^verbatim>\<open>EACCES\<close>, \<^verbatim>\<open>EBADF\<close> and \<^verbatim>\<open>EFAULT\<close>, 404 for \<^verbatim>\<open>ENOENT\<close> and 500 otherwise.  If
  \<^verbatim>\<open>fstat\<close> reports the opened target to be a directory the status is 403.  Otherwise
  the handler itself writes \<^verbatim>\<open>HTTP/1.1 200 OK\<close>, a \<^verbatim>\<open>Content-Length\<close> that is the
  decimal \<^verbatim>\<open>st_size\<close>, the empty line, and passes \<^verbatim>\<open>st_size\<close> bytes of the file to the
  socket, and the worker adds no canned reply.  These four cases are all there are.
\<close>

theorem handle_get_status:
  "(\<forall>e. sys_open os (uri req) [O_RDONLY] = Inl e \<longrightarrow>
      fst (handle_get os req) =
        RESPONSE_UNSENT (if e = EACCES \<or> e = ENAMETOOLONG \<or> e = EPERM \<or> e = EROFS then 403
                         else if e = ENOENT then 404 else 500)) \<and>
   (\<forall>fd e. sys_open os (uri req) [O_RDONLY] = Inr fd \<and> sys_fstat os fd = Inl e \<longrightarrow>
      handle_get os req =
        (RESPONSE_UNSENT (if e = EACCES \<or> e = EBADF \<or> e = EFAULT then 403
                          else if e = ENOENT then 404 else 500),
         [Open (uri req) [O_RDONLY], Fstat fd, Close fd])) \<and>
   (\<forall>fd st. sys_open os (uri req) [O_RDONLY] = Inr fd \<and> sys_fstat os fd = Inr st \<and>
       S_ISDIR (st_mode st) \<longrightarrow>
      fst (handle_get os req) = RESPONSE_UNSENT 403) \<and>
   (\<forall>fd st. sys_open os (uri req) [O_RDONLY] = Inr fd \<and> sys_fstat os fd = Inr st \<and>
       \<not> S_ISDIR (st_mode st) \<longrightarrow>
      handle_get os req =
        (RESPONSE_SENT 200,
         [Open (uri req) [O_RDONLY], Fstat fd,
          Write_n_bytes (sockfd req) (''HTTP/1.1 200 OK'' @ CRLF),
          Write_n_bytes (sockfd req) (''Content-Length: '' @ dec (unat (st_size st)) @ CRLF),
          Write_n_bytes (sockfd req) CRLF,
          Pass_n_bytes fd (sockfd req) (st_size st),
          Close fd]) \<and>
      worker_reply (sockfd req) (fst (handle_get os req)) = [])"
  by (auto simp: handle_get_def Let_def worker_reply_def RESPONSE_SENT_def)

theorem handle_get_status_witness:
  "fst (handle_get (os_open_fails EACCES) (get_request (CHR ''1'') (CHR ''1''))) = RESPONSE_UNSENT 403 \<and>
   fst (handle_get (os_open_fails ENOENT) (get_request (CHR ''1'') (CHR ''1''))) = RESPONSE_UNSENT 404 \<and>
   fst (handle_get (os_open_fails EISDIR) (get_request (CHR ''1'') (CHR ''1''))) = RESPONSE_UNSENT 500 \<and>
   handle_get (os_fstat_fails EBADF) (get_request (CHR ''1'') (CHR ''1''))
     = (RESPONSE_UNSENT 403, [Open ''a'' [O_RDONLY], Fstat 3, Close 3]) \<and>
   handle_get (os_fstat_fails ENOENT) (get_request (CHR ''1'') (CHR ''1''))
     = (RESPONSE_UNSENT 404, [Open ''a'' [O_RDONLY], Fstat 3, Close 3]) \<and>
   handle_get (os_fstat_fails (EOTHER 75)) (get_request (CHR ''1'') (CHR ''1''))
     = (RESPONSE_UNSENT 500, [Open ''a'' [O_RDONLY], Fstat 3, Close 3]) \<and>
   fst (handle_get os_directory (get_request (CHR ''1'') (CHR ''1''))) = RESPONSE_UNSENT 403 \<and>
   handle_get (os_regular_file 5) (get_request (CHR ''1'') (CHR ''1'')) =
     (RESPONSE_SENT 200,
      [Open ''a'' [O_RDONLY], Fstat 3,
       Write_n_bytes 5 (''HTTP/1.1 200 OK'' @ CRLF),
       Write_n_bytes 5 (''Content-Length: 5'' @ CRLF),
       Write_n_bytes 5 CRLF,
       Pass_n_bytes 3 5 5,
       Close 3]) \<and>
   worker_reply 5 (fst (handle_get (os_regular_file 5) (get_request (CHR ''1'') (CHR ''1'')))) = []"
proof -
  let ?rq = "get_request (CHR ''1'') (CHR ''1'')"
  have rq: "uri ?rq = ''a''" "sockfd ?rq = 5" by (simp_all add: get_request_def)
  have o: "\<And>e. sys_open (os_open_fails e) ''a'' [O_RDONLY] = Inl e"
    by (simp add: os_open_fails_def)
  have os: "\<And>e. sys_open (os_fstat_fails e) ''a'' [O_RDONLY] = Inr 3"
    "\<And>e. sys_fstat (os_fstat_fails e) 3 = Inl e"
    by (simp_all add: os_fstat_fails_def)
  have od: "sys_open os_directory ''a'' [O_RDONLY] = Inr 3"
    "sys_fstat os_directory 3 = Inr \<lparr>st_mode = 0x41ED, st_size = 4096\<rparr>"
    by (simp_all add: os_directory_def)
  have orf: "sys_open (os_regular_file 5) ''a'' [O_RDONLY] = Inr 3"
    "sys_fstat (os_regular_file 5) 3 = Inr \<lparr>st_mode = 0x81A4, st_size = 5\<rparr>"
    by (simp_all add: os_regular_file_def)
  have d: "dec 5 = ''5''" by code_simp
  have m1: "S_ISDIR (0x41ED :: 32 word)" by (simp add: S_ISDIR_def)
  have m2: "\<not> S_ISDIR (0x81A4 :: 32 word)" by (simp add: S_ISDIR_def)
  have c1: "fst (handle_get (os_open_fails EACCES) ?rq) = RESPONSE_UNSENT 403"
    using handle_get_status[of "os_open_fails EACCES" ?rq] by (simp add: rq o)
  have c2: "fst (handle_get (os_open_fails ENOENT) ?rq) = RESPONSE_UNSENT 404"
    using handle_get_status[of "os_open_fails ENOENT" ?rq] by (simp add: rq o)
  have c3: "fst (handle_get (os_open_fails EISDIR) ?rq) = RESPONSE_UNSENT 500"
    using handle_get_status[of "os_open_fails EISDIR" ?rq] by (simp add: rq o)
  have f1: "handle_get (os_fstat_fails EBADF) ?rq
            = (RESPONSE_UNSENT 403, [Open ''a'' [O_RDONLY], Fstat 3, Close 3])"
    using handle_get_status[of "os_fstat_fails EBADF" ?rq] by (simp add: rq os)
  have f2: "handle_get (os_fstat_fails ENOENT) ?rq
            = (RESPONSE_UNSENT 404, [Open ''a'' [O_RDONLY], Fstat 3, Close 3])"
    using handle_get_status[of "os_fstat_fails ENOENT" ?rq] by (simp add: rq os)
  have f3: "handle_get (os_fstat_fails (EOTHER 75)) ?rq
            = (RESPONSE_UNSENT 500, [Open ''a'' [O_RDONLY], Fstat 3, Close 3])"
    using handle_get_status[of "os_fstat_fails (EOTHER 75)" ?rq] by (simp add: rq os)
  have c4: "fst (handle_get os_directory ?rq) = RESPONSE_UNSENT 403"
    using handle_get_status[of os_directory ?rq] m1 by (simp add: rq od)
  have c5: "handle_get (os_regular_file 5) ?rq =
     (RESPONSE_SENT 200,
      [Open ''a'' [O_RDONLY], Fstat 3,
       Write_n_bytes 5 (''HTTP/1.1 200 OK'' @ CRLF),
       Write_n_bytes 5 (''Content-Length: 5'' @ CRLF),
       Write_n_bytes 5 CRLF,
       Pass_n_bytes 3 5 5,
       Close 3]) \<and>
     worker_reply 5 (fst (handle_get (os_regular_file 5) ?rq)) = []"
    using handle_get_status[of "os_regular_file 5" ?rq] m2
    by (simp add: rq orf d worker_reply_def RESPONSE_SENT_def)
  show ?thesis using c1 c2 c3 f1 f2 f3 c4 c5 by blast
qed


section \<open>The HTTP version\<close>

text \<open>
  \<^verbatim>\<open>handle_connection\<close> of asgn4 never looks at the version: no request is answered
  505.  \<^verbatim>\<open>validate_request\<close> of asgn2, which asgn4 does not call, answers 505.
\<close>

lemma handle_connection_never_505:
  "handle_connection os file_locks parsed = Inr (response, tr, file_locks') \<Longrightarrow> status response \<noteq> 505"
  by (auto simp: handle_connection_def handle_get_def handle_put_def put_body_status Let_def
        RESPONSE_UNSENT_def RESPONSE_SENT_def
      split: option.splits Method.splits sum.splits if_splits prod.splits)

lemma validate_request_version:
  "method' req = PUT \<or> method' req = GET \<and> body req = [] \<Longrightarrow>
   http_ver_major req \<noteq> CHR ''1'' \<or> http_ver_minor req \<noteq> CHR ''1'' \<Longrightarrow>
   validate_request req = 505"
  by (auto simp: validate_request_def)


lemma validate_request_http_0_9: "validate_request (get_request (CHR ''0'') (CHR ''9'')) = 505"
  by code_simp

text \<open>
  Claim C3 fails on the code.  \<^verbatim>\<open>GET /a HTTP/0.9\<close> with \<^verbatim>\<open>Request-Id: 5\<close>, the file
  being there with 5 bytes: asgn4's \<^verbatim>\<open>handle_connection\<close> serves the file with
  status 200 and logs it, where asgn2's \<^verbatim>\<open>validate_request\<close> gives 505 for the
  same request.
\<close>

theorem http_0_9_get_is_served:
  "handle_connection (os_regular_file 5) (init_file_locks [(), (), (), ()])
     (Some (get_request (CHR ''0'') (CHR ''9'')))
   = Inr (RESPONSE_SENT 200,
          [Lock_read 0,
           Syscall (Open ''a'' [O_RDONLY]), Syscall (Fstat 3),
           Syscall (Write_n_bytes 5 (''HTTP/1.1 200 OK'' @ CRLF)),
           Syscall (Write_n_bytes 5 (''Content-Length: 5'' @ CRLF)),
           Syscall (Write_n_bytes 5 CRLF),
           Syscall (Pass_n_bytes 3 5 5),
           Syscall (Close 3),
           Stderr (''GET,/a,200,5'' @ [CHR 0x0A]),
           Unlock_read 0],
          init_file_locks [(), (), (), ()]) \<and>
   worker_reply 5 (RESPONSE_SENT 200) = []"
  by code_simp


section \<open>The audit line\<close>

text \<open>
  For a GET or PUT with a \<^verbatim>\<open>Request-Id\<close>, \<^verbatim>\<open>handle_connection\<close> takes the entry's lock,
  runs the handler, writes one audit line \<^verbatim>\<open>METHOD,/URI,STATUS,REQUEST_ID\<close> and only
  then releases the lock.
\<close>

lemma audit_line_emitted_once:
  assumes "req_get_header_value req ''Request-Id'' = Some request_id"
    and "find_file_lock file_locks (uri req) = Some (i, file_locks')"
  shows "(method' req = GET \<longrightarrow>
            handle_connection os file_locks (Some req) =
              Inr (fst (handle_get os req),
                   [Lock_read i] @ map Syscall (snd (handle_get os req)) @
                   [Stderr (''GET,/'' @ uri req @ '','' @ printf_d (status (fst (handle_get os req)))
                              @ '','' @ request_id @ [CHR 0x0A]),
                    Unlock_read i],
                   release_file_lock file_locks' i)) \<and>
         (method' req = PUT \<longrightarrow>
            handle_connection os file_locks (Some req) =
              Inr (fst (handle_put os req),
                   [Lock_write i] @ map Syscall (snd (handle_put os req)) @
                   [Stderr (''PUT,/'' @ uri req @ '','' @ printf_d (status (fst (handle_put os req)))
                              @ '','' @ request_id @ [CHR 0x0A]),
                    Unlock_write i],
                   release_file_lock file_locks' i)) \<and>
         (method' req \<noteq> UNSUPPORTED \<longrightarrow>
            (\<exists>response tr fl. handle_connection os file_locks (Some req) = Inr (response, tr, fl)
               \<and> length (filter is_Stderr tr) = 1))"
  using assms
  by (cases "method' req")
     (auto simp: handle_connection_def write_audit_log_def Let_def is_Stderr_def comp_def)


text \<open>
  Claim C7 fails on the code in its last part.  Worker 0 serves \<^verbatim>\<open>/a\<close> (entry 0),
  worker 1 starts serving \<^verbatim>\<open>/b\<close> (entry 1), worker 0 finishes, worker 2 starts
  serving \<^verbatim>\<open>/b\<close>: the scan meets the unused entry 0 before the entry that carries
  \<^verbatim>\<open>/b\<close>, so workers 1 and 2 serve the same URI under two different locks, and
  nothing orders their audit lines as their file accesses.
\<close>

theorem same_uri_two_entries:
  "reg_run (init_file_locks [(), (), ()], replicate 3 None)
     [Acquire 0 ''a'', Acquire 1 ''b'', Release 0, Acquire 2 ''b'']
   = Some ([\<lparr>lock = (), filename = Some ''b'', users = 1\<rparr>,
            \<lparr>lock = (), filename = Some ''b'', users = 1\<rparr>,
            \<lparr>lock = (), filename = None, users = 0\<rparr>],
           [None, Some 1, Some 0])"
  by code_simp


section \<open>The queue is first in, first out\<close>

text \<open>Counting threads, and two facts about indices modulo the capacity.\<close>

lemma count_at_update:
  "t < length pcs \<Longrightarrow>
   count_at P (pcs[t := p]) + (if P (pcs ! t) then 1 else 0) = count_at P pcs + (if P p then 1 else 0)"
proof (induction pcs arbitrary: t)
  case Nil
  then show ?case by simp
next
  case (Cons a pcs)
  show ?case
  proof (cases t)
    case 0
    then show ?thesis by (simp add: count_at_def)
  next
    case (Suc m)
    with Cons.prems have "m < length pcs" by simp
    from Cons.IH[OF this] show ?thesis using Suc by (auto simp: count_at_def split: if_splits)
  qed
qed

lemma count_at_replicate: "\<not> P x \<Longrightarrow> count_at P (replicate k x) = 0"
  by (simp add: count_at_def)

lemma count_at_pos: "t < length pcs \<Longrightarrow> P (pcs ! t) \<Longrightarrow> 0 < count_at P pcs"
  by (metis count_at_def filter_empty_conv length_greater_0_conv nth_mem)

lemma mod_distinct_window:
  fixes C :: nat
  assumes "k < W" "W - k < C"
  shows "k mod C \<noteq> W mod C"
proof
  assume "k mod C = W mod C"
  then have "(W - k) mod C = 0" using assms(1) by (metis less_or_eq_imp_le mod_eq_dvd_iff_nat dvd_imp_mod_0)
  moreover have "(W - k) mod C = W - k" using assms(2) by simp
  ultimately show False using assms(1) by simp
qed

lemma mod_after_increment:
  fixes C :: nat
  assumes "0 < W"
  shows "((W - 1) mod C + 1) mod C = W mod C"
  using assms by (metis Suc_eq_plus1 Suc_pred' mod_Suc_eq)

lemma q_inv_init: "queue_new sz g = Some q \<Longrightarrow> q_inv (nat sz) (q_init q k)"
  by (auto simp: queue_new_def q_init_def q_inv_def count_at_replicate holds_wr_lock_def holds_rd_lock_def
      push_waited_def push_stored_def pop_waited_def pop_loaded_def at_push_mod_def at_pop_mod_def
      split: if_splits)


text \<open>Every statement of \<^verbatim>\<open>queue_push\<close> and \<^verbatim>\<open>queue_pop\<close> keeps the invariant.\<close>

lemmas qpc_preds = holds_wr_lock_def holds_rd_lock_def push_waited_def push_stored_def
  pop_waited_def pop_loaded_def at_push_mod_def at_pop_mod_def

lemma count_at_mono: "(\<And>p. P p \<Longrightarrow> Q p) \<Longrightarrow> count_at P pcs \<le> count_at Q pcs"
  by (induction pcs) (auto simp: count_at_def)

lemma push_mod_le: "count_at at_push_mod pcs \<le> count_at holds_wr_lock pcs"
  by (rule count_at_mono) (auto simp: qpc_preds split: qpc.splits)

lemma pop_mod_le: "count_at at_pop_mod pcs \<le> count_at holds_rd_lock pcs"
  by (rule count_at_mono) (auto simp: qpc_preds split: qpc.splits)

lemma q_inv_run:
  assumes inv: "q_inv C s" and t: "t < length (qpcs s)" and run: "q_run s t = Some s'"
  shows "q_inv C s'"
proof -
  note cu = count_at_update[OF t]
  note cus = cu[of holds_wr_lock] cu[of holds_rd_lock] cu[of push_waited] cu[of push_stored]
      cu[of pop_waited] cu[of pop_loaded] cu[of at_push_mod] cu[of at_pop_mod]
  show ?thesis
  proof (cases "qpcs s ! t")
    case Q_idle
    with run show ?thesis by (simp add: q_run_def)
  next
    case (Push_sem_wait x)
    with run have s': "s' = s\<lparr>que := (que s)\<lparr>wr_sem := wr_sem (que s) - 1\<rparr>,
        qpcs := (qpcs s)[t := Push_mutex_lock x]\<rparr>" and en: "wr_sem (que s) \<noteq> 0"
      by (auto simp: q_run_def Let_def split: if_splits)
    show ?thesis
      using inv en Push_sem_wait cus[of "Push_mutex_lock x"]
      unfolding q_inv_def Let_def s' by (auto simp: qpc_preds)
  next
    case (Push_mutex_lock x)
    with run have s': "s' = s\<lparr>que := (que s)\<lparr>wr_lock := True\<rparr>,
        qpcs := (qpcs s)[t := Push_store x]\<rparr>" and en: "\<not> wr_lock (que s)"
      by (auto simp: q_run_def Let_def split: if_splits)
    show ?thesis
      using inv en Push_mutex_lock cus[of "Push_store x"]
      unfolding q_inv_def Let_def s' by (auto simp: qpc_preds)
  next
    case (Push_store x)
    with run have s': "s' = s\<lparr>que := (que s)\<lparr>buf := (buf (que s))[head (que s) := x], head := head (que s) + 1\<rparr>,
        qpcs := (qpcs s)[t := Push_mod], stored := stored s @ [x]\<rparr>"
      by (auto simp: q_run_def Let_def split: if_splits)
    have one: "0 < count_at holds_wr_lock (qpcs s)" "0 < count_at push_waited (qpcs s)"
      using count_at_pos[OF t] Push_store by (simp_all add: qpc_preds)
    have "count_at holds_wr_lock ((qpcs s)[t := Q_idle]) = 0"
      using inv Push_store cu[of holds_wr_lock Q_idle] one unfolding q_inv_def Let_def
      by (auto simp: qpc_preds split: if_splits)
    then have "count_at at_push_mod ((qpcs s)[t := Q_idle]) = 0"
      using push_mod_le[of "(qpcs s)[t := Q_idle]"] by simp
    then have nomod: "count_at at_push_mod (qpcs s) = 0"
      using Push_store cu[of at_push_mod Q_idle] by (simp add: qpc_preds)
    have window: "length (stored s) - length (loaded s) < C"
      using inv one unfolding q_inv_def Let_def by auto
    have RW: "length (loaded s) \<le> length (stored s)"
      using inv unfolding q_inv_def Let_def by auto
    have keep: "(buf (que s))[length (stored s) mod C := x] ! (k mod C) = (stored s @ [x]) ! k"
      if "length (loaded s) \<le> k" "k < length (stored s) + 1" for k
    proof (cases "k = length (stored s)")
      case True
      then show ?thesis using inv unfolding q_inv_def Let_def by auto
    next
      case False
      with that have k: "k < length (stored s)" by simp
      then have "length (stored s) - k < C" using window that by linarith
      then have "k mod C \<noteq> length (stored s) mod C" using k by (rule mod_distinct_window[rotated])
      then show ?thesis using inv k that unfolding q_inv_def Let_def by (auto simp: nth_append)
    qed
    show ?thesis
      using inv Push_store cus[of "Push_mod"] nomod RW keep
      unfolding q_inv_def Let_def s' by (auto simp: qpc_preds)
  next
    case Push_mod
    with run have s': "s' = s\<lparr>que := (que s)\<lparr>head := head (que s) mod size' (que s)\<rparr>,
        qpcs := (qpcs s)[t := Push_mutex_unlock]\<rparr>"
      by (auto simp: q_run_def Let_def split: if_splits)
    have one: "0 < count_at holds_wr_lock (qpcs s)" "0 < count_at at_push_mod (qpcs s)"
      "0 < count_at push_stored (qpcs s)"
      using count_at_pos[OF t] Push_mod by (simp_all add: qpc_preds)
    have W: "0 < length (stored s)" using inv one unfolding q_inv_def Let_def by auto
    have just: "count_at at_push_mod (qpcs s) = 1"
      using inv one push_mod_le[of "qpcs s"] unfolding q_inv_def Let_def
      by (auto split: if_splits)
    show ?thesis
      using inv Push_mod cus[of "Push_mutex_unlock"] one just mod_after_increment[OF W, of C]
      unfolding q_inv_def Let_def s' by (auto simp: qpc_preds)
  next
    case Push_mutex_unlock
    with run have s': "s' = s\<lparr>que := (que s)\<lparr>wr_lock := False\<rparr>,
        qpcs := (qpcs s)[t := Push_sem_post]\<rparr>"
      by (auto simp: q_run_def Let_def split: if_splits)
    have one: "0 < count_at holds_wr_lock (qpcs s)"
      using count_at_pos[OF t] Push_mutex_unlock by (simp_all add: qpc_preds)
    show ?thesis
      using inv Push_mutex_unlock cus[of "Push_sem_post"] one
      unfolding q_inv_def Let_def s' by (auto simp: qpc_preds split: if_splits)
  next
    case Push_sem_post
    with run have s': "s' = s\<lparr>que := (que s)\<lparr>rd_sem := rd_sem (que s) + 1\<rparr>,
        qpcs := (qpcs s)[t := Q_idle]\<rparr>"
      by (auto simp: q_run_def Let_def split: if_splits)
    have one: "0 < count_at push_stored (qpcs s)"
      using count_at_pos[OF t] Push_sem_post by (simp_all add: qpc_preds)
    show ?thesis
      using inv Push_sem_post cus[of "Q_idle"] one
      unfolding q_inv_def Let_def s' by (auto simp: qpc_preds)
  next
    case Pop_sem_wait
    with run have s': "s' = s\<lparr>que := (que s)\<lparr>rd_sem := rd_sem (que s) - 1\<rparr>,
        qpcs := (qpcs s)[t := Pop_mutex_lock]\<rparr>" and en: "rd_sem (que s) \<noteq> 0"
      by (auto simp: q_run_def Let_def split: if_splits)
    show ?thesis
      using inv en Pop_sem_wait cus[of "Pop_mutex_lock"]
      unfolding q_inv_def Let_def s' by (auto simp: qpc_preds)
  next
    case Pop_mutex_lock
    with run have s': "s' = s\<lparr>que := (que s)\<lparr>rd_lock := True\<rparr>,
        qpcs := (qpcs s)[t := Pop_load]\<rparr>" and en: "\<not> rd_lock (que s)"
      by (auto simp: q_run_def Let_def split: if_splits)
    show ?thesis
      using inv en Pop_mutex_lock cus[of "Pop_load"]
      unfolding q_inv_def Let_def s' by (auto simp: qpc_preds)
  next
    case Pop_load
    with run have s': "s' = s\<lparr>que := (que s)\<lparr>tail := tail (que s) + 1\<rparr>,
        qpcs := (qpcs s)[t := Pop_mod (buf (que s) ! tail (que s))],
        loaded := loaded s @ [buf (que s) ! tail (que s)]\<rparr>"
      by (auto simp: q_run_def Let_def split: if_splits)
    have one: "0 < count_at holds_rd_lock (qpcs s)" "0 < count_at pop_waited (qpcs s)"
      using count_at_pos[OF t] Pop_load by (simp_all add: qpc_preds)
    have "count_at holds_rd_lock ((qpcs s)[t := Q_idle]) = 0"
      using inv Pop_load cu[of holds_rd_lock Q_idle] one unfolding q_inv_def Let_def
      by (auto simp: qpc_preds split: if_splits)
    then have "count_at at_pop_mod ((qpcs s)[t := Q_idle]) = 0"
      using pop_mod_le[of "(qpcs s)[t := Q_idle]"] by simp
    then have nomod: "count_at at_pop_mod (qpcs s) = 0"
      using Pop_load cu[of at_pop_mod Q_idle] by (simp add: qpc_preds)
    have RW: "length (loaded s) < length (stored s)"
      using inv one unfolding q_inv_def Let_def by auto
    have tl: "tail (que s) = length (loaded s) mod C"
      using inv nomod unfolding q_inv_def Let_def by auto
    have x: "buf (que s) ! tail (que s) = stored s ! length (loaded s)"
      using inv RW unfolding tl q_inv_def Let_def by auto
    have tk: "take (length (loaded s)) (stored s) @ [stored s ! length (loaded s)]
              = take (Suc (length (loaded s))) (stored s)"
      using RW by (simp add: take_Suc_conv_app_nth)
    show ?thesis
      using inv Pop_load cus[of "Pop_mod (buf (que s) ! tail (que s))"] nomod RW tk
      unfolding q_inv_def Let_def s' x by (auto simp: qpc_preds)
  next
    case (Pop_mod x)
    with run have s': "s' = s\<lparr>que := (que s)\<lparr>tail := tail (que s) mod size' (que s)\<rparr>,
        qpcs := (qpcs s)[t := Pop_mutex_unlock x]\<rparr>"
      by (auto simp: q_run_def Let_def split: if_splits)
    have one: "0 < count_at holds_rd_lock (qpcs s)" "0 < count_at at_pop_mod (qpcs s)"
      "0 < count_at pop_loaded (qpcs s)"
      using count_at_pos[OF t] Pop_mod by (simp_all add: qpc_preds)
    have "count_at pop_loaded (qpcs s) \<le> length (loaded s)"
      using inv unfolding q_inv_def Let_def by blast
    then have R: "0 < length (loaded s)" using one by linarith
    have just: "count_at at_pop_mod (qpcs s) = 1"
      using inv one pop_mod_le[of "qpcs s"] unfolding q_inv_def Let_def
      by (auto split: if_splits)
    show ?thesis
      using inv Pop_mod cus[of "Pop_mutex_unlock x"] one just mod_after_increment[OF R, of C]
      unfolding q_inv_def Let_def s' by (auto simp: qpc_preds)
  next
    case (Pop_mutex_unlock x)
    with run have s': "s' = s\<lparr>que := (que s)\<lparr>rd_lock := False\<rparr>,
        qpcs := (qpcs s)[t := Pop_sem_post x]\<rparr>"
      by (auto simp: q_run_def Let_def split: if_splits)
    have one: "0 < count_at holds_rd_lock (qpcs s)"
      using count_at_pos[OF t] Pop_mutex_unlock by (simp_all add: qpc_preds)
    show ?thesis
      using inv Pop_mutex_unlock cus[of "Pop_sem_post x"] one
      unfolding q_inv_def Let_def s' by (auto simp: qpc_preds split: if_splits)
  next
    case (Pop_sem_post x)
    with run have s': "s' = s\<lparr>que := (que s)\<lparr>wr_sem := wr_sem (que s) + 1\<rparr>,
        qpcs := (qpcs s)[t := Q_idle]\<rparr>"
      by (auto simp: q_run_def Let_def split: if_splits)
    have one: "0 < count_at pop_loaded (qpcs s)"
      using count_at_pos[OF t] Pop_sem_post by (simp_all add: qpc_preds)
    show ?thesis
      using inv Pop_sem_post cus[of "Q_idle"] one
      unfolding q_inv_def Let_def s' by (auto simp: qpc_preds)
  qed
qed

lemma q_inv_step: "q_inv C s \<Longrightarrow> q_step s e = Some s' \<Longrightarrow> q_inv C s'"
proof (cases e)
  case (Call_push t x)
  assume inv: "q_inv C s" and st: "q_step s e = Some s'"
  from st Call_push have t: "t < length (qpcs s)" and idle: "qpcs s ! t = Q_idle"
    and s': "s' = s\<lparr>qpcs := (qpcs s)[t := Push_sem_wait x]\<rparr>"
    by (auto split: if_splits)
  note cu = count_at_update[OF t, of _ "Push_sem_wait x"]
  show ?thesis
    using inv idle cu[of holds_wr_lock] cu[of holds_rd_lock] cu[of push_waited] cu[of push_stored]
      cu[of pop_waited] cu[of pop_loaded] cu[of at_push_mod] cu[of at_pop_mod]
    unfolding q_inv_def Let_def s' by (auto simp: qpc_preds)
next
  case (Call_pop t)
  assume inv: "q_inv C s" and st: "q_step s e = Some s'"
  from st Call_pop have t: "t < length (qpcs s)" and idle: "qpcs s ! t = Q_idle"
    and s': "s' = s\<lparr>qpcs := (qpcs s)[t := Pop_sem_wait]\<rparr>"
    by (auto split: if_splits)
  note cu = count_at_update[OF t, of _ "Pop_sem_wait"]
  show ?thesis
    using inv idle cu[of holds_wr_lock] cu[of holds_rd_lock] cu[of push_waited] cu[of push_stored]
      cu[of pop_waited] cu[of pop_loaded] cu[of at_push_mod] cu[of at_pop_mod]
    unfolding q_inv_def Let_def s' by (auto simp: qpc_preds)
next
  case (Run t)
  assume "q_inv C s" "q_step s e = Some s'"
  with Run show ?thesis by (auto split: if_splits intro: q_inv_run)
qed

lemma q_inv_exec: "q_inv C s \<Longrightarrow> q_exec s evs = Some s' \<Longrightarrow> q_inv C s'"
proof (induction evs arbitrary: s)
  case Nil
  then show ?case by simp
next
  case (Cons e evs)
  then show ?case by (auto split: option.splits dest: q_inv_step)
qed

lemma count_at_all_idle:
  "\<forall>t<length pcs. pcs ! t = Q_idle \<Longrightarrow> \<not> P Q_idle \<Longrightarrow> count_at P pcs = 0"
  by (auto simp: count_at_def filter_empty_conv in_set_conv_nth)


text \<open>
  Claim C8.  For every queue of capacity \<open>C\<close> made by \<^verbatim>\<open>queue_new\<close>, any number of
  threads and every interleaving of the statements of their \<^verbatim>\<open>queue_push\<close> and
  \<^verbatim>\<open>queue_pop\<close> calls: the elements popped so far are, in the order of the pops, the
  first elements pushed, in the order the pushes stored them; the elements pushed are,
  as a multiset, those popped and those still in the queue, so that once as many
  elements are popped as were pushed the two multisets are equal; the number of
  elements in the queue stays within \<open>0 .. C\<close>; and when no call is under way,
  \<^verbatim>\<open>head\<close> and \<^verbatim>\<open>tail\<close> are the numbers of pushes and of pops modulo \<open>C\<close>, and the
  semaphores count the filled and the free slots.
\<close>

theorem queue_fifo:
  assumes "queue_new sz garbage = Some q" and "q_exec (q_init q k) evs = Some s"
  shows "loaded s = take (length (loaded s)) (stored s) \<and>
         mset (stored s) = mset (loaded s) + mset (drop (length (loaded s)) (stored s)) \<and>
         length (loaded s) \<le> length (stored s) \<and>
         length (stored s) \<le> length (loaded s) + nat sz \<and>
         (length (loaded s) = length (stored s) \<longrightarrow> mset (loaded s) = mset (stored s)) \<and>
         ((\<forall>t<length (qpcs s). qpcs s ! t = Q_idle) \<longrightarrow>
            head (que s) = length (stored s) mod nat sz \<and>
            tail (que s) = length (loaded s) mod nat sz \<and>
            rd_sem (que s) = length (stored s) - length (loaded s) \<and>
            wr_sem (que s) = nat sz - (length (stored s) - length (loaded s)))"
proof -
  have inv: "q_inv (nat sz) s"
    using q_inv_exec[OF q_inv_init[OF assms(1)] assms(2)] .
  then have tk: "loaded s = take (length (loaded s)) (stored s)"
    and le: "length (loaded s) \<le> length (stored s)"
    and cap: "length (stored s) \<le> length (loaded s) + nat sz"
    unfolding q_inv_def Let_def by auto
  have "mset (stored s) = mset (take (length (loaded s)) (stored s) @ drop (length (loaded s)) (stored s))"
    by simp
  then have ms: "mset (stored s) = mset (loaded s) + mset (drop (length (loaded s)) (stored s))"
    using tk by (metis mset_append)
  have eq: "mset (loaded s) = mset (stored s)" if "length (loaded s) = length (stored s)"
    using tk that by (metis take_all order_refl)
  have idle: "head (que s) = length (stored s) mod nat sz \<and>
            tail (que s) = length (loaded s) mod nat sz \<and>
            rd_sem (que s) = length (stored s) - length (loaded s) \<and>
            wr_sem (que s) = nat sz - (length (stored s) - length (loaded s))"
    if "\<forall>t<length (qpcs s). qpcs s ! t = Q_idle"
  proof -
    have z: "\<And>P. \<not> P Q_idle \<Longrightarrow> count_at P (qpcs s) = 0"
      using that by (rule count_at_all_idle)
    have "count_at push_waited (qpcs s) = 0" "count_at push_stored (qpcs s) = 0"
      "count_at pop_waited (qpcs s) = 0" "count_at pop_loaded (qpcs s) = 0"
      "count_at at_push_mod (qpcs s) = 0" "count_at at_pop_mod (qpcs s) = 0"
      by (rule z, simp add: qpc_preds)+
    then show ?thesis using inv unfolding q_inv_def Let_def by auto
  qed
  show ?thesis using tk ms le cap eq idle by blast
qed

theorem queue_fifo_witness:
  "queue_new 2 (\<lambda>i. 0 :: nat)
     = Some \<lparr>size' = 2, buf = [0, 0], head = 0, tail = 0, wr_lock = False, rd_lock = False,
             rd_sem = 0, wr_sem = 2\<rparr> \<and>
   q_exec (q_init \<lparr>size' = 2, buf = [0, 0], head = 0, tail = 0, wr_lock = False, rd_lock = False,
             rd_sem = 0, wr_sem = 2\<rparr> 2)
      (push_events 0 (10::nat) @ push_events 0 20 @ pop_events 1 @ push_events 0 30 @ pop_events 1 @ pop_events 1)
     = Some \<lparr>que = \<lparr>size' = 2, buf = [30, 20 :: nat], head = 1, tail = 1, wr_lock = False, rd_lock = False,
                     rd_sem = 0, wr_sem = 2\<rparr>,
             qpcs = [Q_idle, Q_idle], stored = [10, 20, 30], loaded = [10, 20, 30]\<rparr> \<and>
   mset [10, 20, 30 :: nat] = mset [10, 20, 30] \<and> (1::nat) = 3 mod nat 2"
proof -
  have new: "queue_new 2 (\<lambda>i. 0 :: nat)
     = Some \<lparr>size' = 2, buf = [0, 0], head = 0, tail = 0, wr_lock = False, rd_lock = False,
             rd_sem = 0, wr_sem = 2\<rparr>"
    by code_simp
  have ex: "q_exec (q_init \<lparr>size' = 2, buf = [0, 0], head = 0, tail = 0, wr_lock = False, rd_lock = False,
             rd_sem = 0, wr_sem = 2\<rparr> 2)
      (push_events 0 (10::nat) @ push_events 0 20 @ pop_events 1 @ push_events 0 30 @ pop_events 1 @ pop_events 1)
     = Some \<lparr>que = \<lparr>size' = 2, buf = [30, 20 :: nat], head = 1, tail = 1, wr_lock = False, rd_lock = False,
                     rd_sem = 0, wr_sem = 2\<rparr>,
             qpcs = [Q_idle, Q_idle], stored = [10, 20, 30 :: nat], loaded = [10, 20, 30]\<rparr>"
    by code_simp
  show ?thesis
    using new ex queue_fifo[OF new ex] by simp
qed


section \<open>Mutual exclusion of the reader/writer lock\<close>

text \<open>The labels fit the statements of all twelve functions.\<close>

lemma labels_ok_all: "labels_ok p f"
  by (cases p; cases f)
     (simp_all add: labels_ok_def code_def reader_lock_def reader_unlock_def writer_lock_def writer_unlock_def
       labels_def label_of_def caller_def returned_def needs_mutex_def upt_rec
       rd_priority_rd_lock_def rd_priority_rd_unlock_def rd_priority_wr_lock_def rd_priority_wr_unlock_def
       wr_priority_rd_lock_def wr_priority_rd_unlock_def wr_priority_wr_lock_def wr_priority_wr_unlock_def
       nway_priority_rd_lock_def nway_priority_rd_unlock_def nway_priority_wr_lock_def nway_priority_wr_unlock_def)

lemma labels_length: "length (labels p f) = length (code p f)"
  using labels_ok_all[of p f] by (simp add: labels_ok_def Let_def)

lemma label_of_In: "l < length (code p f) \<Longrightarrow> label_of p (In f l) = labels p f ! l"
  by (simp add: label_of_def labels_length)

lemma label_of_caller: "label_of p (In f 0) = label_of p (caller f)"
  using labels_ok_all[of p f] by (simp add: labels_ok_def Let_def label_of_def labels_length)

lemma stmt_ok_at:
  "l < length (code p f) \<Longrightarrow>
   stmt_ok (\<lambda>l. labels p f ! l) (length (code p f)) (label_of p (returned f)) (code p f ! l) l"
  using labels_ok_all[of p f] by (simp add: labels_ok_def Let_def list_all_iff)

lemma needs_mutex_at: "needs_mutex (label_of p c)"
proof (cases c)
  case (In f l)
  show ?thesis
  proof (cases "l < length (code p f)")
    case True
    then have "needs_mutex (labels p f ! l)"
      using labels_ok_all[of p f] by (simp add: labels_ok_def Let_def list_all_iff)
    then show ?thesis using True In by (simp add: label_of_In)
  next
    case False
    then show ?thesis using In by (simp add: label_of_def labels_length needs_mutex_def)
  qed
qed (simp_all add: label_of_def needs_mutex_def)

lemma part_needs_mutex:
  "X = Joining \<or> X = Left_test \<or> X = Last \<Longrightarrow> part_is p X c \<Longrightarrow> has_mutex p c"
  using needs_mutex_at[of p c] by (auto simp: part_is_def has_mutex_def needs_mutex_def)

lemma part_count_update:
  assumes "t < length cs" "label_of p (cs ! t) = (m, r)" "label_of p c' = (m', r')"
  shows "count_at (part_is p X) (cs[t := c']) + (if r = X then 1 else 0)
         = count_at (part_is p X) cs + (if r' = X then 1 else 0)"
  using count_at_update[OF assms(1), of "part_is p X" c'] assms(2,3) by (simp add: part_is_def)

lemma mutex_count_update:
  assumes "t < length cs" "label_of p (cs ! t) = (m, r)" "label_of p c' = (m', r')"
  shows "count_at (has_mutex p) (cs[t := c']) + (if m then 1 else 0)
         = count_at (has_mutex p) cs + (if m' then 1 else 0)"
  using count_at_update[OF assms(1), of "has_mutex p" c'] assms(2,3) by (simp add: has_mutex_def)

lemma mutex_excludes:
  assumes t: "t < length cs" and old: "label_of p (cs ! t) = (True, r)"
    and one: "count_at (has_mutex p) cs \<le> 1" and X: "X = Joining \<or> X = Left_test \<or> X = Last"
  shows "count_at (part_is p X) cs = (if r = X then 1 else 0)"
proof -
  have idle: "label_of p Idle = (False, Out)" by (simp add: label_of_def)
  have "count_at (has_mutex p) (cs[t := Idle]) = 0"
    using mutex_count_update[OF t old idle] one by simp
  moreover have "count_at (part_is p X) (cs[t := Idle]) \<le> count_at (has_mutex p) (cs[t := Idle])"
    by (rule count_at_mono) (rule part_needs_mutex[OF X])
  ultimately have "count_at (part_is p X) (cs[t := Idle]) = 0" by simp
  then show ?thesis using part_count_update[OF t old idle, of X] X by auto
qed

lemma word32_of_nat_0: "k < 2 ^ 32 \<Longrightarrow> (word_of_nat k :: 32 word) = 0 \<Longrightarrow> k = 0"
proof -
  assume k: "k < 2 ^ 32" and z: "(word_of_nat k :: 32 word) = 0"
  have "unat (word_of_nat k :: 32 word) = k" using k by (simp add: unat_of_nat)
  then show "k = 0" using z by simp
qed

lemma word32_of_nat_max: "(word_of_nat (2 ^ 32) :: 32 word) = 0"
  by simp

lemma word32_of_nat_pred: "0 < k \<Longrightarrow> (word_of_nat k :: 32 word) - 1 = word_of_nat (k - 1)"
  by (cases k) simp_all


text \<open>The invariant, taken apart and put together.\<close>

lemma rw_invI:
  assumes "priority l' = p"
    and "count_at (has_mutex p) cs' = (if mutex l' then 1 else 0)"
    and "write_lock l' + count_at (part_is p Holds) cs' + (if 0 < cohort p cs' then 1 else 0) = 1"
    and "readers_holding l' = word_of_nat (count_at (part_is p Counted) cs')"
    and "cohort p cs' \<le> 2 ^ 32"
    and "0 < count_at (part_is p Last) cs' \<Longrightarrow> readers_holding l' = 0"
  shows "rw_inv p \<lparr>rw = l', threads = cs'\<rparr>"
  using assms by (simp add: rw_inv_def Let_def)

lemma rw_invD:
  assumes "rw_inv p s"
  shows "priority (rw s) = p"
    and "count_at (has_mutex p) (threads s) = (if mutex (rw s) then 1 else 0)"
    and "write_lock (rw s) + count_at (part_is p Holds) (threads s) + (if 0 < cohort p (threads s) then 1 else 0) = 1"
    and "readers_holding (rw s) = word_of_nat (count_at (part_is p Counted) (threads s))"
    and "cohort p (threads s) \<le> 2 ^ 32"
    and "0 < count_at (part_is p Last) (threads s) \<Longrightarrow> readers_holding (rw s) = 0"
  using assms by (auto simp: rw_inv_def Let_def split: if_splits)

text \<open>A step that changes neither the thread's label nor the lock's common fields.\<close>

lemma rw_inv_same:
  assumes inv: "rw_inv p s" and t: "t < length (threads s)"
    and lab: "label_of p c' = label_of p (threads s ! t)"
    and rw': "priority l' = priority (rw s)" "mutex l' = mutex (rw s)" "write_lock l' = write_lock (rw s)"
      "readers_holding l' = readers_holding (rw s)"
  shows "rw_inv p \<lparr>rw = l', threads = (threads s)[t := c']\<rparr>"
proof -
  obtain m r where old: "label_of p (threads s ! t) = (m, r)" by (cases "label_of p (threads s ! t)")
  with lab have new: "label_of p c' = (m, r)" by simp
  have pu: "\<And>X. count_at (part_is p X) ((threads s)[t := c']) = count_at (part_is p X) (threads s)"
    using part_count_update[OF t old new] by simp
  have mu: "count_at (has_mutex p) ((threads s)[t := c']) = count_at (has_mutex p) (threads s)"
    using mutex_count_update[OF t old new] by simp
  show ?thesis
    using rw_invD[OF inv] rw' by (intro rw_invI) (simp_all add: pu mu cohort_def)
qed

lemma rw_inv_acquire:
  assumes inv: "rw_inv p s" and t: "t < length (threads s)"
    and old: "label_of p (threads s ! t) = (False, r)" and new: "label_of p c' = (True, r)"
    and free: "\<not> mutex (rw s)"
  shows "rw_inv p \<lparr>rw = (rw s)\<lparr>mutex := True\<rparr>, threads = (threads s)[t := c']\<rparr>"
proof -
  have pu: "\<And>X. count_at (part_is p X) ((threads s)[t := c']) = count_at (part_is p X) (threads s)"
    using part_count_update[OF t old new] by simp
  have mu: "count_at (has_mutex p) ((threads s)[t := c']) = count_at (has_mutex p) (threads s) + 1"
    using mutex_count_update[OF t old new] by simp
  show ?thesis
    using rw_invD[OF inv] free by (intro rw_invI) (simp_all add: pu mu cohort_def)
qed

lemma rw_inv_release:
  assumes inv: "rw_inv p s" and t: "t < length (threads s)"
    and old: "label_of p (threads s ! t) = (True, r)" and new: "label_of p c' = (False, r)"
  shows "rw_inv p \<lparr>rw = (rw s)\<lparr>mutex := False\<rparr>, threads = (threads s)[t := c']\<rparr>"
proof -
  have pu: "\<And>X. count_at (part_is p X) ((threads s)[t := c']) = count_at (part_is p X) (threads s)"
    using part_count_update[OF t old new] by simp
  have pos: "0 < count_at (has_mutex p) (threads s)"
    using count_at_pos[OF t, of "has_mutex p"] old by (simp add: has_mutex_def)
  then have one: "count_at (has_mutex p) (threads s) = 1"
    using rw_invD(2)[OF inv] by (simp split: if_splits)
  have mu: "count_at (has_mutex p) ((threads s)[t := c']) = 0"
    using mutex_count_update[OF t old new] one by simp
  show ?thesis
    using rw_invD[OF inv] by (intro rw_invI) (simp_all add: pu mu cohort_def)
qed

lemma rw_inv_sem_wait:
  assumes inv: "rw_inv p s" and t: "t < length (threads s)"
    and old: "label_of p (threads s ! t) = (m, Out)" and new: "label_of p c' = (m, r')"
    and r': "r' = Joining \<or> r' = Holds"
    and pos: "write_lock (rw s) \<noteq> 0"
  shows "rw_inv p \<lparr>rw = (rw s)\<lparr>write_lock := write_lock (rw s) - 1\<rparr>, threads = (threads s)[t := c']\<rparr>"
proof -
  note pu = part_count_update[OF t old new]
  have mu: "count_at (has_mutex p) ((threads s)[t := c']) = count_at (has_mutex p) (threads s)"
    using mutex_count_update[OF t old new] by simp
  from rw_invD(3)[OF inv] pos
  have sem: "write_lock (rw s) = 1" and noH: "count_at (part_is p Holds) (threads s) = 0"
    and noG: "cohort p (threads s) = 0"
    by (auto split: if_splits)
  from noG have z: "count_at (part_is p Joining) (threads s) = 0" "count_at (part_is p Counted) (threads s) = 0"
    "count_at (part_is p Left_test) (threads s) = 0" "count_at (part_is p Last) (threads s) = 0"
    by (simp_all add: cohort_def)
  show ?thesis
    using rw_invD[OF inv] r' sem noH z pu[of Joining] pu[of Counted] pu[of Left_test] pu[of Last] pu[of Holds]
    by (intro rw_invI) (auto simp: mu cohort_def)
qed

lemma rw_inv_sem_post:
  assumes inv: "rw_inv p s" and t: "t < length (threads s)"
    and old: "label_of p (threads s ! t) = (m, r)" and new: "label_of p c' = (m, Out)"
    and r: "r = Last \<or> r = Holds"
  shows "rw_inv p \<lparr>rw = (rw s)\<lparr>write_lock := write_lock (rw s) + 1\<rparr>, threads = (threads s)[t := c']\<rparr>"
proof -
  note pu = part_count_update[OF t old new]
  have mu: "count_at (has_mutex p) ((threads s)[t := c']) = count_at (has_mutex p) (threads s)"
    using mutex_count_update[OF t old new] by simp
  have here: "0 < count_at (part_is p r) (threads s)"
    using count_at_pos[OF t, of "part_is p r"] old by (simp add: part_is_def)
  from r show ?thesis
  proof
    assume L: "r = Last"
    then have m: "m" using needs_mutex_at[of p "threads s ! t"] old by (simp add: needs_mutex_def)
    have le1: "count_at (has_mutex p) (threads s) \<le> 1" using rw_invD(2)[OF inv] by (simp split: if_splits)
    have old': "label_of p (threads s ! t) = (True, Last)" using old L m by simp
    have ex: "count_at (part_is p Joining) (threads s) = 0" "count_at (part_is p Left_test) (threads s) = 0"
      "count_at (part_is p Last) (threads s) = 1"
      using mutex_excludes[OF t old' le1] by auto
    have rh0: "readers_holding (rw s) = 0" using rw_invD(6)[OF inv] ex by simp
    have "count_at (part_is p Counted) (threads s) < 2 ^ 32"
      using rw_invD(5)[OF inv] ex by (simp add: cohort_def)
    then have c0: "count_at (part_is p Counted) (threads s) = 0"
      using rh0 rw_invD(4)[OF inv] word32_of_nat_0 by metis
    have sem: "write_lock (rw s) = 0" "count_at (part_is p Holds) (threads s) = 0"
      using rw_invD(3)[OF inv] ex by (auto simp: cohort_def split: if_splits)
    show ?thesis
      using rw_invD[OF inv] L sem ex c0 pu[of Joining] pu[of Counted] pu[of Left_test] pu[of Last] pu[of Holds]
      by (intro rw_invI) (auto simp: mu cohort_def)
  next
    assume H: "r = Holds"
    from rw_invD(3)[OF inv] here H
    have sem: "write_lock (rw s) = 0" and oneH: "count_at (part_is p Holds) (threads s) = 1"
      and noG: "cohort p (threads s) = 0"
      by (auto split: if_splits)
    from noG have z: "count_at (part_is p Joining) (threads s) = 0" "count_at (part_is p Counted) (threads s) = 0"
      "count_at (part_is p Left_test) (threads s) = 0" "count_at (part_is p Last) (threads s) = 0"
      by (simp_all add: cohort_def)
    show ?thesis
      using rw_invD[OF inv] H sem oneH z pu[of Joining] pu[of Counted] pu[of Left_test] pu[of Last] pu[of Holds]
      by (intro rw_invI) (auto simp: mu cohort_def)
  qed
qed

lemma rw_inv_inc:
  assumes inv: "rw_inv p s" and t: "t < length (threads s)"
    and old: "label_of p (threads s ! t) = (True, Joining)" and new: "label_of p c' = (True, Counted)"
  shows "rw_inv p \<lparr>rw = (rw s)\<lparr>readers_holding := readers_holding (rw s) + 1\<rparr>,
                   threads = (threads s)[t := c']\<rparr>"
proof -
  note pu = part_count_update[OF t old new]
  have mu: "count_at (has_mutex p) ((threads s)[t := c']) = count_at (has_mutex p) (threads s)"
    using mutex_count_update[OF t old new] by simp
  have le1: "count_at (has_mutex p) (threads s) \<le> 1" using rw_invD(2)[OF inv] by (simp split: if_splits)
  have ex: "count_at (part_is p Joining) (threads s) = 1" "count_at (part_is p Left_test) (threads s) = 0"
    "count_at (part_is p Last) (threads s) = 0"
    using mutex_excludes[OF t old le1] by auto
  show ?thesis
    using rw_invD[OF inv] ex pu[of Joining] pu[of Counted] pu[of Left_test] pu[of Last] pu[of Holds]
    by (intro rw_invI) (auto simp: mu cohort_def)
qed

lemma rw_inv_dec:
  assumes inv: "rw_inv p s" and t: "t < length (threads s)"
    and old: "label_of p (threads s ! t) = (True, Counted)" and new: "label_of p c' = (True, Left_test)"
  shows "rw_inv p \<lparr>rw = (rw s)\<lparr>readers_holding := readers_holding (rw s) - 1\<rparr>,
                   threads = (threads s)[t := c']\<rparr>"
proof -
  note pu = part_count_update[OF t old new]
  have mu: "count_at (has_mutex p) ((threads s)[t := c']) = count_at (has_mutex p) (threads s)"
    using mutex_count_update[OF t old new] by simp
  have le1: "count_at (has_mutex p) (threads s) \<le> 1" using rw_invD(2)[OF inv] by (simp split: if_splits)
  have ex: "count_at (part_is p Joining) (threads s) = 0" "count_at (part_is p Left_test) (threads s) = 0"
    "count_at (part_is p Last) (threads s) = 0"
    using mutex_excludes[OF t old le1] by auto
  have here: "0 < count_at (part_is p Counted) (threads s)"
    using count_at_pos[OF t, of "part_is p Counted"] old by (simp add: part_is_def)
  have c: "count_at (part_is p Counted) ((threads s)[t := c']) = count_at (part_is p Counted) (threads s) - 1"
    using pu[of Counted] by simp
  have rh: "readers_holding (rw s) - 1 = word_of_nat (count_at (part_is p Counted) (threads s) - 1)"
    using rw_invD(4)[OF inv] word32_of_nat_pred[OF here] by simp
  show ?thesis
    using rw_invD[OF inv] ex here rh pu[of Joining] pu[of Left_test] pu[of Last] pu[of Holds]
    by (intro rw_invI) (auto simp: mu c cohort_def)
qed

lemma rw_inv_first_reader:
  assumes inv: "rw_inv p s" and t: "t < length (threads s)"
    and old: "label_of p (threads s ! t) = (True, Out)"
    and new: "label_of p c' = (if readers_holding (rw s) = 0 then (True, Out) else (True, Joining))"
  shows "rw_inv p \<lparr>rw = rw s, threads = (threads s)[t := c']\<rparr>"
proof (cases "readers_holding (rw s) = 0")
  case True
  with new old have "label_of p c' = label_of p (threads s ! t)" by simp
  from rw_inv_same[OF inv t this, of "rw s"] show ?thesis by simp
next
  case False
  with new have new': "label_of p c' = (True, Joining)" by simp
  note pu = part_count_update[OF t old new']
  have mu: "count_at (has_mutex p) ((threads s)[t := c']) = count_at (has_mutex p) (threads s)"
    using mutex_count_update[OF t old new'] by simp
  have le1: "count_at (has_mutex p) (threads s) \<le> 1" using rw_invD(2)[OF inv] by (simp split: if_splits)
  have ex: "count_at (part_is p Joining) (threads s) = 0" "count_at (part_is p Left_test) (threads s) = 0"
    "count_at (part_is p Last) (threads s) = 0"
    using mutex_excludes[OF t old le1] by auto
  have cpos: "0 < count_at (part_is p Counted) (threads s)"
    using False rw_invD(4)[OF inv] by (cases "count_at (part_is p Counted) (threads s)") auto
  have "count_at (part_is p Counted) (threads s) \<noteq> 2 ^ 32"
    using False rw_invD(4)[OF inv] word32_of_nat_max by metis
  then have clt: "count_at (part_is p Counted) (threads s) < 2 ^ 32"
    using rw_invD(5)[OF inv] ex by (simp add: cohort_def)
  show ?thesis
    using rw_invD[OF inv] ex cpos clt pu[of Joining] pu[of Counted] pu[of Left_test] pu[of Last] pu[of Holds]
    by (intro rw_invI) (auto simp: mu cohort_def)
qed

lemma rw_inv_last_reader:
  assumes inv: "rw_inv p s" and t: "t < length (threads s)"
    and old: "label_of p (threads s ! t) = (True, Left_test)"
    and new: "label_of p c' = (if readers_holding (rw s) = 0 then (True, Last) else (True, Out))"
  shows "rw_inv p \<lparr>rw = rw s, threads = (threads s)[t := c']\<rparr>"
proof -
  have le1: "count_at (has_mutex p) (threads s) \<le> 1" using rw_invD(2)[OF inv] by (simp split: if_splits)
  have ex: "count_at (part_is p Joining) (threads s) = 0" "count_at (part_is p Left_test) (threads s) = 1"
    "count_at (part_is p Last) (threads s) = 0"
    using mutex_excludes[OF t old le1] by auto
  show ?thesis
  proof (cases "readers_holding (rw s) = 0")
    case True
    with new have new': "label_of p c' = (True, Last)" by simp
    note pu = part_count_update[OF t old new']
    have mu: "count_at (has_mutex p) ((threads s)[t := c']) = count_at (has_mutex p) (threads s)"
      using mutex_count_update[OF t old new'] by simp
    show ?thesis
      using rw_invD[OF inv] ex True pu[of Joining] pu[of Counted] pu[of Left_test] pu[of Last] pu[of Holds]
      by (intro rw_invI) (auto simp: mu cohort_def)
  next
    case False
    with new have new': "label_of p c' = (True, Out)" by simp
    note pu = part_count_update[OF t old new']
    have mu: "count_at (has_mutex p) ((threads s)[t := c']) = count_at (has_mutex p) (threads s)"
      using mutex_count_update[OF t old new'] by simp
    have cpos: "0 < count_at (part_is p Counted) (threads s)"
      using False rw_invD(4)[OF inv] by (cases "count_at (part_is p Counted) (threads s)") auto
    show ?thesis
      using rw_invD[OF inv] ex cpos pu[of Joining] pu[of Counted] pu[of Left_test] pu[of Last] pu[of Holds]
      by (intro rw_invI) (auto simp: mu cohort_def)
  qed
qed


text \<open>Every statement of every function, and every call, keeps the invariant.\<close>

lemma rw_inv_run:
  assumes inv: "rw_inv p s" and t: "t < length (threads s)" and run: "rw_run s t = Some s'"
  shows "rw_inv p s'"
proof -
  have pr: "priority (rw s) = p" using rw_invD(1)[OF inv] .
  from run obtain f l l' nxt where c: "threads s ! t = In f l" and l: "l < length (code p f)"
    and ex: "exec (code p f ! l) l (rw s) = Some (l', nxt)"
    and s': "s' = \<lparr>rw = l', threads = (threads s)[t := (case nxt of Some a \<Rightarrow> In f a | None \<Rightarrow> returned f)]\<rparr>"
    unfolding rw_run_def pr by (auto simp: Let_def split: pc.splits if_splits option.splits)
  let ?F = "\<lambda>l. labels p f ! l"
  have old: "label_of p (threads s ! t) = ?F l" using c l by (simp add: label_of_In)
  have ok: "stmt_ok ?F (length (code p f)) (label_of p (returned f)) (code p f ! l) l"
    using stmt_ok_at[OF l] .
  have lab: "\<And>a. a < length (code p f) \<Longrightarrow> label_of p (In f a) = ?F a" by (simp add: label_of_In)
  show ?thesis
  proof (cases "code p f ! l")
    case Mutex_lock
    with ex have e: "\<not> mutex (rw s)" "l' = (rw s)\<lparr>mutex := True\<rparr>" "nxt = Some (l + 1)"
      by (auto split: if_splits)
    from ok Mutex_lock have o: "l + 1 < length (code p f)" "\<not> fst (?F l)" "fst (?F (l + 1))"
      "snd (?F (l + 1)) = snd (?F l)" by auto
    have "label_of p (threads s ! t) = (False, snd (?F l))" using old o by (simp add: prod_eq_iff)
    moreover have "label_of p (In f (l + 1)) = (True, snd (?F l))" using lab[OF o(1)] o by (simp add: prod_eq_iff)
    ultimately show ?thesis unfolding s' e using rw_inv_acquire[OF inv t _ _ e(1)] by simp
  next
    case Mutex_unlock
    with ex have e: "l' = (rw s)\<lparr>mutex := False\<rparr>" "nxt = Some (l + 1)" by auto
    from ok Mutex_unlock have o: "l + 1 < length (code p f)" "fst (?F l)" "\<not> fst (?F (l + 1))"
      "snd (?F (l + 1)) = snd (?F l)" by auto
    have "label_of p (threads s ! t) = (True, snd (?F l))" using old o by (simp add: prod_eq_iff)
    moreover have "label_of p (In f (l + 1)) = (False, snd (?F l))" using lab[OF o(1)] o by (simp add: prod_eq_iff)
    ultimately show ?thesis unfolding s' e using rw_inv_release[OF inv t] by simp
  next
    case Sem_wait
    with ex have e: "write_lock (rw s) \<noteq> 0" "l' = (rw s)\<lparr>write_lock := write_lock (rw s) - 1\<rparr>"
      "nxt = Some (l + 1)" by (auto split: if_splits)
    from ok Sem_wait have o: "l + 1 < length (code p f)" "fst (?F (l + 1)) = fst (?F l)" "snd (?F l) = Out"
      "snd (?F (l + 1)) = Joining \<or> snd (?F (l + 1)) = Holds" by auto
    have "label_of p (threads s ! t) = (fst (?F l), Out)" using old o by (simp add: prod_eq_iff)
    moreover have "label_of p (In f (l + 1)) = (fst (?F l), snd (?F (l + 1)))"
      using lab[OF o(1)] o by (simp add: prod_eq_iff)
    ultimately show ?thesis unfolding s' e using rw_inv_sem_wait[OF inv t _ _ o(4) e(1)] by simp
  next
    case Sem_post
    with ex have e: "l' = (rw s)\<lparr>write_lock := write_lock (rw s) + 1\<rparr>" "nxt = Some (l + 1)" by auto
    from ok Sem_post have o: "l + 1 < length (code p f)" "fst (?F (l + 1)) = fst (?F l)"
      "snd (?F l) = Last \<or> snd (?F l) = Holds" "snd (?F (l + 1)) = Out" by auto
    obtain m r where F: "?F l = (m, r)" by (cases "?F l")
    have o1: "label_of p (threads s ! t) = (m, r)" using old F by simp
    have o2: "label_of p (In f (l + 1)) = (m, Out)" using lab[OF o(1)] o F by (simp add: prod_eq_iff)
    have o3: "r = Last \<or> r = Holds" using o(3) F by simp
    from rw_inv_sem_post[OF inv t o1 o2 o3] show ?thesis unfolding s' e by simp
  next
    case Cond_wait_unlock
    with ex have e: "l' = (rw s)\<lparr>mutex := False\<rparr>" "nxt = Some (l + 1)" by auto
    from ok Cond_wait_unlock have o: "l + 1 < length (code p f)" "fst (?F l)" "\<not> fst (?F (l + 1))"
      "snd (?F (l + 1)) = snd (?F l)" by auto
    have "label_of p (threads s ! t) = (True, snd (?F l))" using old o by (simp add: prod_eq_iff)
    moreover have "label_of p (In f (l + 1)) = (False, snd (?F l))" using lab[OF o(1)] o by (simp add: prod_eq_iff)
    ultimately show ?thesis unfolding s' e using rw_inv_release[OF inv t] by simp
  next
    case (Cond_wait_relock a)
    with ex have e: "\<not> mutex (rw s)" "l' = (rw s)\<lparr>mutex := True\<rparr>" "nxt = Some a"
      by (auto split: if_splits)
    from ok Cond_wait_relock have o: "a < length (code p f)" "\<not> fst (?F l)" "fst (?F a)"
      "snd (?F a) = snd (?F l)" by auto
    have "label_of p (threads s ! t) = (False, snd (?F l))" using old o by (simp add: prod_eq_iff)
    moreover have "label_of p (In f a) = (True, snd (?F l))" using lab[OF o(1)] o by (simp add: prod_eq_iff)
    ultimately show ?thesis unfolding s' e using rw_inv_acquire[OF inv t _ _ e(1)] by simp
  next
    case (Update g)
    with ex have e: "l' = (rw s)\<lparr>state := g (state (rw s))\<rparr>" "nxt = Some (l + 1)" by auto
    from ok Update have o: "l + 1 < length (code p f)" "?F (l + 1) = ?F l" by auto
    have "label_of p (In f (l + 1)) = label_of p (threads s ! t)" using lab[OF o(1)] o old by simp
    then show ?thesis unfolding s' e using rw_inv_same[OF inv t, of "In f (l + 1)"] by simp
  next
    case Inc_readers_holding
    with ex have e: "l' = (rw s)\<lparr>readers_holding := readers_holding (rw s) + 1\<rparr>" "nxt = Some (l + 1)"
      by auto
    from ok Inc_readers_holding have o: "l + 1 < length (code p f)" "?F l = (True, Joining)"
      "?F (l + 1) = (True, Counted)" by auto
    have "label_of p (threads s ! t) = (True, Joining)" using old o by simp
    moreover have "label_of p (In f (l + 1)) = (True, Counted)" using lab[OF o(1)] o by simp
    ultimately show ?thesis unfolding s' e using rw_inv_inc[OF inv t] by simp
  next
    case Dec_readers_holding
    with ex have e: "l' = (rw s)\<lparr>readers_holding := readers_holding (rw s) - 1\<rparr>" "nxt = Some (l + 1)"
      by auto
    from ok Dec_readers_holding have o: "l + 1 < length (code p f)" "?F l = (True, Counted)"
      "?F (l + 1) = (True, Left_test)" by auto
    have "label_of p (threads s ! t) = (True, Counted)" using old o by simp
    moreover have "label_of p (In f (l + 1)) = (True, Left_test)" using lab[OF o(1)] o by simp
    ultimately show ?thesis unfolding s' e using rw_inv_dec[OF inv t] by simp
  next
    case (If_no_readers a b)
    with ex have e: "l' = rw s" "nxt = Some (if readers_holding (rw s) = 0 then a else b)" by auto
    from ok If_no_readers have ab: "a < length (code p f)" "b < length (code p f)" by auto
    from ok If_no_readers
    consider "?F l = (True, Out)" "?F a = (True, Out)" "?F b = (True, Joining)"
      | "?F l = (True, Left_test)" "?F a = (True, Last)" "?F b = (True, Out)"
      by auto
    then show ?thesis
    proof cases
      case 1
      have o: "label_of p (threads s ! t) = (True, Out)" using old 1 by simp
      have "label_of p (In f (if readers_holding (rw s) = 0 then a else b))
            = (if readers_holding (rw s) = 0 then (True, Out) else (True, Joining))"
        using lab[OF ab(1)] lab[OF ab(2)] 1 by simp
      from rw_inv_first_reader[OF inv t o this] show ?thesis unfolding s' e by simp
    next
      case 2
      have o: "label_of p (threads s ! t) = (True, Left_test)" using old 2 by simp
      have "label_of p (In f (if readers_holding (rw s) = 0 then a else b))
            = (if readers_holding (rw s) = 0 then (True, Last) else (True, Out))"
        using lab[OF ab(1)] lab[OF ab(2)] 2 by simp
      from rw_inv_last_reader[OF inv t o this] show ?thesis unfolding s' e by simp
    qed
  next
    case (Branch c' a b)
    with ex have e: "l' = rw s" "nxt = Some (if c' (rw s) then a else b)" by auto
    from ok Branch have o: "a < length (code p f)" "b < length (code p f)" "?F a = ?F l" "?F b = ?F l"
      by auto
    have "label_of p (In f (if c' (rw s) then a else b)) = label_of p (threads s ! t)"
      using lab[OF o(1)] lab[OF o(2)] o old by simp
    then show ?thesis unfolding s' e using rw_inv_same[OF inv t, of _ "rw s"] by simp
  next
    case (Goto a)
    with ex have e: "l' = rw s" "nxt = Some a" by auto
    from ok Goto have o: "a < length (code p f)" "?F a = ?F l" by auto
    have "label_of p (In f a) = label_of p (threads s ! t)" using lab[OF o(1)] o old by simp
    then show ?thesis unfolding s' e using rw_inv_same[OF inv t, of _ "rw s"] by simp
  next
    case Wake
    with ex have e: "l' = rw s" "nxt = Some (l + 1)" by auto
    from ok Wake have o: "l + 1 < length (code p f)" "?F (l + 1) = ?F l" by auto
    have "label_of p (In f (l + 1)) = label_of p (threads s ! t)" using lab[OF o(1)] o old by simp
    then show ?thesis unfolding s' e using rw_inv_same[OF inv t, of _ "rw s"] by simp
  next
    case Return
    with ex have e: "l' = rw s" "nxt = None" by auto
    from ok Return have "label_of p (returned f) = label_of p (threads s ! t)" using old by simp
    then show ?thesis unfolding s' e using rw_inv_same[OF inv t, of _ "rw s"] by simp
  qed
qed

lemma rw_inv_step: "rw_inv p s \<Longrightarrow> rw_step s e = Some s' \<Longrightarrow> rw_inv p s'"
proof (cases e)
  case (Call f t)
  assume inv: "rw_inv p s" and st: "rw_step s e = Some s'"
  from st Call have t: "t < length (threads s)" and c: "threads s ! t = caller f"
    and s': "s' = \<lparr>rw = rw s, threads = (threads s)[t := In f 0]\<rparr>"
    by (auto split: if_splits)
  have "label_of p (In f 0) = label_of p (threads s ! t)" using c by (simp add: label_of_caller)
  from rw_inv_same[OF inv t this, of "rw s"] show ?thesis unfolding s' by simp
next
  case (Step t)
  assume "rw_inv p s" "rw_step s e = Some s'"
  with Step show ?thesis by (auto split: if_splits intro: rw_inv_run)
qed

lemma rw_inv_exec: "rw_inv p s \<Longrightarrow> rw_exec s evs = Some s' \<Longrightarrow> rw_inv p s'"
proof (induction evs arbitrary: s)
  case Nil
  then show ?case by simp
next
  case (Cons e evs)
  then show ?case by (auto split: option.splits dest: rw_inv_step)
qed

lemma rw_inv_init: "rwlock_new p k mem = Some l \<Longrightarrow> rw_inv p (rw_init l T)"
  by (auto simp: rwlock_new_def rw_init_def rw_inv_def cohort_def count_at_replicate
        part_is_def has_mutex_def label_of_def
      split: PRIORITY.splits if_splits)


text \<open>
  Claim C1.  For every lock made by \<^verbatim>\<open>rwlock_new\<close>, under each of the three
  priorities, any number of threads and every interleaving of the statements of their
  \<^verbatim>\<open>reader_lock\<close>, \<^verbatim>\<open>reader_unlock\<close>, \<^verbatim>\<open>writer_lock\<close> and \<^verbatim>\<open>writer_unlock\<close> calls: in
  no state that is reached is \<^verbatim>\<open>readers_holding\<close> other than 0 while a writer holds
  the write gate (it has passed the \<^verbatim>\<open>sem_wait\<close> of \<^verbatim>\<open>writer_lock\<close> and not yet the
  \<^verbatim>\<open>sem_post\<close> of \<^verbatim>\<open>writer_unlock\<close>); no thread is in the critical section as a
  reader while another is there as a writer; and at most one writer holds the gate.
\<close>

theorem mutual_exclusion:
  assumes "rwlock_new p k mem = Some l" and "rw_exec (rw_init l T) evs = Some s"
  shows "\<not> (readers_holding (rw s) \<noteq> 0 \<and> (\<exists>t<length (threads s). part_is p Holds (threads s ! t))) \<and>
         \<not> ((\<exists>t<length (threads s). threads s ! t = Reading) \<and>
             (\<exists>t<length (threads s). threads s ! t = Writing)) \<and>
         count_at (part_is p Holds) (threads s) \<le> 1 \<and>
         count_at (\<lambda>c. c = Writing) (threads s) \<le> 1"
proof -
  have inv: "rw_inv p s" using rw_inv_exec[OF rw_inv_init[OF assms(1)] assms(2)] .
  note g = rw_invD(3)[OF inv] and r = rw_invD(4)[OF inv]
  have a: False if "readers_holding (rw s) \<noteq> 0" "t < length (threads s)" "part_is p Holds (threads s ! t)" for t
  proof -
    have "0 < count_at (part_is p Holds) (threads s)" using count_at_pos that(2,3) by metis
    then have "cohort p (threads s) = 0" using g by (auto split: if_splits)
    then have "count_at (part_is p Counted) (threads s) = 0" by (simp add: cohort_def)
    then show False using r that(1) by simp
  qed
  have b: False if "t < length (threads s)" "threads s ! t = Reading" "u < length (threads s)"
    "threads s ! u = Writing" for t u
  proof -
    have "part_is p Counted (threads s ! t)" "part_is p Holds (threads s ! u)"
      using that by (simp_all add: part_is_def label_of_def)
    then have "0 < count_at (part_is p Counted) (threads s)" "0 < count_at (part_is p Holds) (threads s)"
      using count_at_pos that(1,3) by metis+
    then show False using g by (auto simp: cohort_def split: if_splits)
  qed
  have c: "count_at (part_is p Holds) (threads s) \<le> 1" using g by linarith
  have "count_at (\<lambda>c. c = Writing) (threads s) \<le> count_at (part_is p Holds) (threads s)"
    by (rule count_at_mono) (simp add: part_is_def label_of_def)
  then have d: "count_at (\<lambda>c. c = Writing) (threads s) \<le> 1" using c by linarith
  show ?thesis using a b c d by blast
qed

theorem mutual_exclusion_witness:
  "rwlock_new N_WAY 1 zero_mem
     = Some \<lparr>state = \<lparr>n = 1, readers_waiting = 0, readers_passed = 0, writers_waiting = 0,
                      writer_holding = False\<rparr>,
             priority = N_WAY, readers_holding = 0, mutex = False, write_lock = 1\<rparr> \<and>
   rw_exec (rw_init \<lparr>state = \<lparr>n = 1, readers_waiting = 0, readers_passed = 0, writers_waiting = 0,
                      writer_holding = False\<rparr>,
             priority = N_WAY, readers_holding = 0, mutex = False, write_lock = 1\<rparr> 2)
      (Call Wr_lock 0 # steps 0 6 @ Call Rd_lock 1 # steps 1 7)
     = Some \<lparr>rw = \<lparr>state = \<lparr>n = 1, readers_waiting = 0, readers_passed = 1, writers_waiting = 1,
                             writer_holding = False\<rparr>,
                    priority = N_WAY, readers_holding = 0, mutex = True, write_lock = 0\<rparr>,
             threads = [Writing, In Rd_lock 9]\<rparr> \<and>
   rw_step \<lparr>rw = \<lparr>state = \<lparr>n = 1, readers_waiting = 0, readers_passed = 1, writers_waiting = 1,
                             writer_holding = False\<rparr>,
                    priority = N_WAY, readers_holding = 0, mutex = True, write_lock = 0\<rparr>,
             threads = [Writing, In Rd_lock 9]\<rparr> (Step 1) = None \<and>
   part_is N_WAY Holds ([Writing, In Rd_lock 9] ! 0) \<and>
   count_at (\<lambda>c. c = Writing) [Writing, In Rd_lock 9] \<le> 1"
proof -
  have new: "rwlock_new N_WAY 1 zero_mem
     = Some \<lparr>state = \<lparr>n = 1, readers_waiting = 0, readers_passed = 0, writers_waiting = 0,
                      writer_holding = False\<rparr>,
             priority = N_WAY, readers_holding = 0, mutex = False, write_lock = 1\<rparr>"
    by code_simp
  have ex: "rw_exec (rw_init \<lparr>state = \<lparr>n = 1, readers_waiting = 0, readers_passed = 0, writers_waiting = 0,
                      writer_holding = False\<rparr>,
             priority = N_WAY, readers_holding = 0, mutex = False, write_lock = 1\<rparr> 2)
      (Call Wr_lock 0 # steps 0 6 @ Call Rd_lock 1 # steps 1 7)
     = Some \<lparr>rw = \<lparr>state = \<lparr>n = 1, readers_waiting = 0, readers_passed = 1, writers_waiting = 1,
                             writer_holding = False\<rparr>,
                    priority = N_WAY, readers_holding = 0, mutex = True, write_lock = 0\<rparr>,
             threads = [Writing, In Rd_lock 9]\<rparr>"
    by code_simp
  have blocked: "rw_step \<lparr>rw = \<lparr>state = \<lparr>n = 1, readers_waiting = 0, readers_passed = 1, writers_waiting = 1,
                             writer_holding = False\<rparr>,
                    priority = N_WAY, readers_holding = 0, mutex = True, write_lock = 0\<rparr>,
             threads = [Writing, In Rd_lock 9]\<rparr> (Step 1) = None"
    by code_simp
  have h: "part_is N_WAY Holds ([Writing, In Rd_lock 9] ! 0)"
    by (simp add: part_is_def label_of_def)
  show ?thesis
    using new ex blocked h mutual_exclusion[OF new ex] by simp
qed


section \<open>The N-way quota\<close>

text \<open>With no writer waiting, the reader's loop does not wait, whatever the quota.\<close>

lemma nway_reader_not_throttled:
  "writers_waiting (state l) = 0 \<Longrightarrow> exec (nway_priority_rd_lock ! 2) 2 l = Some (l, Some 5)"
  by (simp add: nway_priority_rd_lock_def)


text \<open>
  Claim C2 fails on the code.  An N-way lock with \<open>N = 1\<close> and four threads:
  thread 0 holds the lock as a writer and thread 1 has called \<^verbatim>\<open>writer_lock\<close> and
  waits on the write gate.  Reader 2 passes the quota test and waits on the gate under
  the mutex; thread 0 posts the gate, reader 2 takes it and enters; thread 0 then
  resets \<^verbatim>\<open>readers_passed\<close>, so that reader 3 passes the quota test as well and
  enters: two readers have entered while writer 1 was waiting all along.
\<close>

theorem nway_two_readers_pass_a_waiting_writer:
  "rwlock_new N_WAY 1 zero_mem
     = Some \<lparr>state = \<lparr>n = 1, readers_waiting = 0, readers_passed = 0, writers_waiting = 0,
                      writer_holding = False\<rparr>,
             priority = N_WAY, readers_holding = 0, mutex = False, write_lock = 1\<rparr> \<and>
   rw_exec (rw_init \<lparr>state = \<lparr>n = 1, readers_waiting = 0, readers_passed = 0, writers_waiting = 0,
                      writer_holding = False\<rparr>,
             priority = N_WAY, readers_holding = 0, mutex = False, write_lock = 1\<rparr> 4)
      (Call Wr_lock 0 # steps 0 6 @ Call Wr_lock 1 # steps 1 4)
     = Some \<lparr>rw = \<lparr>state = \<lparr>n = 1, readers_waiting = 0, readers_passed = 0, writers_waiting = 2,
                             writer_holding = False\<rparr>,
                    priority = N_WAY, readers_holding = 0, mutex = False, write_lock = 0\<rparr>,
             threads = [Writing, In Wr_lock 6, Idle, Idle]\<rparr> \<and>
   admitted 1 \<lparr>rw = \<lparr>state = \<lparr>n = 1, readers_waiting = 0, readers_passed = 0, writers_waiting = 2,
                             writer_holding = False\<rparr>,
                    priority = N_WAY, readers_holding = 0, mutex = False, write_lock = 0\<rparr>,
             threads = [Writing, In Wr_lock 6, Idle, Idle]\<rparr>
      (Call Rd_lock 2 # steps 2 7 @ Call Wr_unlock 0 # steps 0 1 @ steps 2 4 @ steps 0 6 @
       Call Rd_lock 3 # steps 3 10)
     = Some 2 \<and>
   rw_exec \<lparr>rw = \<lparr>state = \<lparr>n = 1, readers_waiting = 0, readers_passed = 0, writers_waiting = 2,
                             writer_holding = False\<rparr>,
                    priority = N_WAY, readers_holding = 0, mutex = False, write_lock = 0\<rparr>,
             threads = [Writing, In Wr_lock 6, Idle, Idle]\<rparr>
      (Call Rd_lock 2 # steps 2 7 @ Call Wr_unlock 0 # steps 0 1 @ steps 2 4 @ steps 0 6 @
       Call Rd_lock 3 # steps 3 10)
     = Some \<lparr>rw = \<lparr>state = \<lparr>n = 1, readers_waiting = 0, readers_passed = 1, writers_waiting = 1,
                             writer_holding = False\<rparr>,
                    priority = N_WAY, readers_holding = 2, mutex = False, write_lock = 0\<rparr>,
             threads = [Idle, In Wr_lock 6, Reading, Reading]\<rparr>"
  by code_simp


end
